theory Spec2Isabelle
  imports Main "HOL-Library.Word" "HOL-Library.Log_Nat"
begin

text \<open>
  A shallow embedding of the audio engine of CTracker (\<^verbatim>\<open>CTracker.c\<close>): the pitch-shifting
  resampler, the sample voice, the row scheduler with its loop window, the offline mixer
  and renderer, and the WAV writer, together with the operations that edit the tempo and
  the loop window of a song. The first half of the theory holds the definitions, function
  by function; the second half the properties.
\<close>

section \<open>C arithmetic\<close>

text \<open>
  Values of type \<^verbatim>\<open>int\<close> are modelled as \<^typ>\<open>int\<close>. Signed overflow is undefined in
  C, so the theorems state the bounds under which the products of the program stay
  inside 32 bits. Conversions to \<^verbatim>\<open>Uint32\<close> wrap and are written out with \<open>u32\<close>. The C
  operators \<^verbatim>\<open>/\<close> and \<^verbatim>\<open>%\<close> round the quotient towards zero; division by zero stops
  the program and is 0 in the model.
\<close>

definition c_div :: "int \<Rightarrow> int \<Rightarrow> int" where
  "c_div a b = (if (a < 0) = (b < 0) then \<bar>a\<bar> div \<bar>b\<bar> else - (\<bar>a\<bar> div \<bar>b\<bar>))"

definition c_mod :: "int \<Rightarrow> int \<Rightarrow> int" where
  "c_mod a b = a - b * c_div a b"

definition u32 :: "int \<Rightarrow> int" where
  "u32 x = x mod 2 ^ 32"

definition SAMPLE_RATE :: int where "SAMPLE_RATE = 44100"
definition MAX_ROWS :: nat where "MAX_ROWS = 16"
definition MAX_CHANNELS :: nat where "MAX_CHANNELS = 8"

section \<open>Data model\<close>

text \<open>
  \<^verbatim>\<open>Cell\<close>, \<^verbatim>\<open>Track\<close> and \<^verbatim>\<open>Song\<close> are the structs of the source. The fixed arrays
  \<^verbatim>\<open>cells[MAX_ROWS]\<close> and \<^verbatim>\<open>channels[MAX_CHANNELS]\<close> are lists; \<open>song_wf\<close> records
  their lengths and that the two counters stay inside them (the source indexes the
  arrays with the counters and never checks them; a write past the end is undefined in
  C and leaves the list as it is here). The field \<^verbatim>\<open>note\<close> is \<open>cell_note\<close>. A
  \<^verbatim>\<open>double\<close> is a rational number, see the section on floating point.
\<close>

record Cell =
  cell_note :: int
  original_note :: int
  duration_ms :: int
  sample :: string
  playing :: int
  pitch_ratio :: rat

record Track =
  cells :: "Cell list"

record Song =
  channels :: "Track list"
  num_channels :: int
  num_rows :: int
  bpm :: int
  loop_start :: int
  loop_end :: int
  loop_enabled :: int

definition cell_at :: "Song \<Rightarrow> nat \<Rightarrow> nat \<Rightarrow> Cell" where
  "cell_at song ch row = cells (channels song ! ch) ! row"

definition update_cell :: "(Cell \<Rightarrow> Cell) \<Rightarrow> nat \<Rightarrow> nat \<Rightarrow> Song \<Rightarrow> Song" where
  "update_cell f ch row song =
     song\<lparr>channels := (channels song)
       [ch := (channels song ! ch)\<lparr>cells := (cells (channels song ! ch))
          [row := f (cells (channels song ! ch) ! row)]\<rparr>]\<rparr>"

definition song_wf :: "Song \<Rightarrow> bool" where
  "song_wf song \<longleftrightarrow>
     length (channels song) = MAX_CHANNELS \<and>
     list_all (\<lambda>t. length (cells t) = MAX_ROWS) (channels song) \<and>
     0 \<le> num_channels song \<and> num_channels song \<le> int MAX_CHANNELS \<and>
     0 \<le> num_rows song \<and> num_rows song \<le> int MAX_ROWS"

text \<open>The invariant of the loop window: it only constrains a song whose loop is enabled.\<close>

definition loop_inv :: "Song \<Rightarrow> bool" where
  "loop_inv song \<longleftrightarrow>
     (loop_enabled song \<noteq> 0 \<longrightarrow>
        0 \<le> loop_start song \<and> loop_start song < loop_end song \<and> loop_end song < num_rows song)"

section \<open>Row duration and BPM\<close>

definition get_note_duration_ms :: "Song \<Rightarrow> int" where
  "get_note_duration_ms song =
     (if bpm song = 0 then 500 else c_div (c_div 60000 (bpm song)) 4)"

text \<open>
  \<^verbatim>\<open>change_bpm\<close> reads \<open>new_bpm\<close> with \<^verbatim>\<open>scanf\<close>; the number read is the second argument.
  The two nested \<^verbatim>\<open>for\<close> loops run over the channels and rows the song uses.
\<close>

definition set_duration :: "nat \<Rightarrow> nat \<Rightarrow> Song \<Rightarrow> Song" where
  "set_duration ch row song =
     update_cell (\<lambda>c. c\<lparr>duration_ms := get_note_duration_ms song\<rparr>) ch row song"

definition update_row_durations :: "nat \<Rightarrow> Song \<Rightarrow> Song" where
  "update_row_durations ch song = fold (set_duration ch) [0..<nat (num_rows song)] song"

definition update_durations :: "Song \<Rightarrow> Song" where
  "update_durations song = fold update_row_durations [0..<nat (num_channels song)] song"

definition change_bpm :: "Song \<Rightarrow> int \<Rightarrow> Song" where
  "change_bpm song new_bpm =
     (if 20 \<le> new_bpm \<and> new_bpm \<le> 300
      then update_durations (song\<lparr>bpm := new_bpm\<rparr>)
      else song)"

section \<open>Loop window\<close>

text \<open>
  \<^verbatim>\<open>set_loop\<close> reads the answer to "Enable loop?" and, after a yes, the two rows; the three
  inputs are arguments of the model.
\<close>

definition set_loop :: "Song \<Rightarrow> char \<Rightarrow> int \<Rightarrow> int \<Rightarrow> Song" where
  "set_loop song choice start end_row =
     (if choice = CHR ''y'' \<or> choice = CHR ''Y'' then
        (let s1 = song\<lparr>loop_enabled := 1\<rparr> in
         if 0 \<le> start \<and> start < end_row \<and> end_row < num_rows s1
         then s1\<lparr>loop_start := start, loop_end := end_row\<rparr>
         else s1\<lparr>loop_enabled := 0\<rparr>)
      else song\<lparr>loop_enabled := 0\<rparr>)"

section \<open>Playback scheduler\<close>

text \<open>
  \<^verbatim>\<open>play_song\<close> returns at once when SDL or the mixer cannot be opened; otherwise it
  enters the loop \<^verbatim>\<open>while (global_playing)\<close> with \<open>current_row = 0\<close> and
  \<open>loop_count = 0\<close>. \<open>advance_row\<close> is the body of that loop after the row has been played
  and no key was pressed: the row counter advances, wraps at the end of the loop window,
  or the loop is left. \<open>None\<close> is the \<^verbatim>\<open>break\<close>.
\<close>

definition advance_row :: "Song \<Rightarrow> int \<times> int \<Rightarrow> (int \<times> int) option" where
  "advance_row song st =
     (let current_row = fst st + 1; loop_count = snd st in
      if loop_enabled song \<noteq> 0 then
        (if current_row > loop_end song then Some (loop_start song, loop_count + 1)
         else Some (current_row, loop_count))
      else
        (if current_row \<ge> num_rows song then None else Some (current_row, loop_count)))"

text \<open>
  The loop itself. \<^verbatim>\<open>kbhit()\<close> is polled once per row; its answers are the list \<open>keys\<close>,
  and the run is followed for as many rows as there are answers. The result is the list
  of rows handed to \<^verbatim>\<open>play_row\<close>, in order, and the loop counter.
\<close>

fun play_song_loop :: "Song \<Rightarrow> bool list \<Rightarrow> int \<times> int \<Rightarrow> int list \<times> int" where
  "play_song_loop song [] st = ([], snd st)"
| "play_song_loop song (key # keys) st =
     (if key then ([fst st], snd st)
      else (case advance_row song st of
              None \<Rightarrow> ([fst st], snd st)
            | Some st' \<Rightarrow> (let r = play_song_loop song keys st' in (fst st # fst r, snd r))))"

definition play_song_rows :: "Song \<Rightarrow> bool list \<Rightarrow> int list" where
  "play_song_rows song keys = fst (play_song_loop song keys (0, 0))"

section \<open>Floating point\<close>

text \<open>
  A finite \<^verbatim>\<open>double\<close> or \<^verbatim>\<open>float\<close> is a rational number. Every arithmetic operation of the
  source is the exact operation followed by IEEE 754 rounding to nearest, ties to even,
  to \<open>p\<close> significant bits: \<open>p = 53\<close> for \<^verbatim>\<open>double\<close>, \<open>p = 24\<close> for \<^verbatim>\<open>float\<close>. The exponent
  range is not bounded, so overflow to infinity, subnormal numbers and NaN are outside the
  model; the quantities of the program (sample positions, interpolation weights, 16-bit
  amplitudes) are far from both ends of the range. \<open>expo x\<close> is the binary exponent of
  \<open>x\<close>, the integer \<open>e\<close> with \<open>2\<^sup>e \<le> \<bar>x\<bar> < 2\<^sup>e\<^sup>+\<^sup>1\<close>.
\<close>

definition expo :: "rat \<Rightarrow> int" where
  "expo x =
     (let a = \<bar>x\<bar> in
      if 1 \<le> a then int (floorlog 2 (nat \<lfloor>a\<rfloor>)) - 1
      else (let k = int (floorlog 2 (nat \<lfloor>1 / a\<rfloor>)) - 1 in
            if a * 2 powi k = 1 then - k else - (k + 1)))"

definition round_half_even :: "rat \<Rightarrow> int" where
  "round_half_even m =
     (let f = \<lfloor>m\<rfloor>; d = m - of_int f in
      if d < 1 / 2 then f else if 1 / 2 < d then f + 1 else if even f then f else f + 1)"

definition rnd :: "nat \<Rightarrow> rat \<Rightarrow> rat" where
  "rnd p x =
     (if x = 0 then 0
      else (let s = expo x - (int p - 1) in
            of_int (round_half_even (x / 2 powi s)) * 2 powi s))"

definition dadd :: "rat \<Rightarrow> rat \<Rightarrow> rat" where "dadd a b = rnd 53 (a + b)"
definition dsub :: "rat \<Rightarrow> rat \<Rightarrow> rat" where "dsub a b = rnd 53 (a - b)"
definition dmul :: "rat \<Rightarrow> rat \<Rightarrow> rat" where "dmul a b = rnd 53 (a * b)"
definition ddiv :: "rat \<Rightarrow> rat \<Rightarrow> rat" where "ddiv a b = rnd 53 (a / b)"

definition fsub :: "rat \<Rightarrow> rat \<Rightarrow> rat" where "fsub a b = rnd 24 (a - b)"
definition fmul :: "rat \<Rightarrow> rat \<Rightarrow> rat" where "fmul a b = rnd 24 (a * b)"

text \<open>The literals \<^verbatim>\<open>0.001\<close>, \<^verbatim>\<open>0.7f\<close> and \<^verbatim>\<open>0.3f\<close> are the nearest numbers of their type.\<close>

definition d_0_001 :: rat where "d_0_001 = rnd 53 (1 / 1000)"
definition f_0_7 :: rat where "f_0_7 = rnd 24 (7 / 10)"
definition f_0_3 :: rat where "f_0_3 = rnd 24 (3 / 10)"

text \<open>
  Conversion of a floating-point value to an integer type truncates towards zero. The
  result is undefined in C when it does not fit the target type; the model wraps it, and
  the theorems show where it fits.
\<close>

definition d2i :: "rat \<Rightarrow> int" where
  "d2i x = (if 0 \<le> x then \<lfloor>x\<rfloor> else \<lceil>x\<rceil>)"

definition d2u32 :: "rat \<Rightarrow> nat" where
  "d2u32 x = nat (u32 (d2i x))"

type_synonym Sint16 = "16 word"

definition d2s16 :: "rat \<Rightarrow> Sint16" where
  "d2s16 x = word_of_int (d2i x)"

section \<open>Pitch shifting\<close>

text \<open>
  \<^verbatim>\<open>pitch_shift_sample\<close> with the buffer as a list; \<open>new_len\<close> is the length of the result
  and \<open>ratio\<close> is the argument \<^verbatim>\<open>pitch_ratio\<close>.
  Allocation is taken to succeed. The parts of the loop body have names of their own, so
  that the theorems can speak about the indexes read and about the value before the cast.
\<close>

definition clamp_ratio :: "rat \<Rightarrow> rat" where
  "clamp_ratio ratio =
     (let r = (if 2 < ratio then 2 else ratio) in
      if r < 1 / 2 then 1 / 2 else r)"

definition src_pos :: "rat \<Rightarrow> nat \<Rightarrow> rat" where
  "src_pos r i = dmul (of_nat i) r"

definition src_idx1 :: "rat \<Rightarrow> nat \<Rightarrow> nat" where
  "src_idx1 r i = d2u32 (src_pos r i)"

definition src_idx2 :: "nat \<Rightarrow> rat \<Rightarrow> nat \<Rightarrow> nat" where
  "src_idx2 original_len r i =
     (let idx2 = (src_idx1 r i + 1) mod 2 ^ 32 in
      if idx2 \<ge> original_len then (original_len + 2 ^ 32 - 1) mod 2 ^ 32 else idx2)"

definition src_frac :: "rat \<Rightarrow> nat \<Rightarrow> rat" where
  "src_frac r i = dsub (src_pos r i) (of_nat (src_idx1 r i))"

definition interp :: "Sint16 list \<Rightarrow> rat \<Rightarrow> nat \<Rightarrow> rat" where
  "interp original r i =
     dadd (dmul (of_int (sint (original ! src_idx1 r i))) (dsub 1 (src_frac r i)))
          (dmul (of_int (sint (original ! src_idx2 (length original) r i))) (src_frac r i))"

definition new_length :: "nat \<Rightarrow> rat \<Rightarrow> nat" where
  "new_length original_len r = d2u32 (ddiv (of_nat original_len) r)"

definition pitch_shift_sample :: "Sint16 list \<Rightarrow> rat \<Rightarrow> Sint16 list" where
  "pitch_shift_sample original ratio =
     (if \<bar>dsub ratio 1\<bar> < d_0_001 then original
      else (let r = clamp_ratio ratio in
            map (\<lambda>i. d2s16 (interp original r i)) [0..<new_length (length original) r]))"

text \<open>
  \<^verbatim>\<open>calculate_pitch_ratio\<close> calls \<^verbatim>\<open>pow\<close> of the C library, which is the parameter \<open>pw\<close>.
\<close>

definition calculate_pitch_ratio :: "(rat \<Rightarrow> rat \<Rightarrow> rat) \<Rightarrow> int \<Rightarrow> int \<Rightarrow> rat" where
  "calculate_pitch_ratio pw original target =
     (if original \<le> 0 \<or> target \<le> 0 then 1
      else pw 2 (ddiv (of_int (target - original)) 12))"

section \<open>Sample voice\<close>

text \<open>
  The thread function of a sample voice. \<^verbatim>\<open>Mix_LoadWAV\<close> is a parameter: it gives the
  samples of the file, or \<open>None\<close> for \<^verbatim>\<open>NULL\<close>. What the voice does to the audio device
  is the list of events it returns, next to its thread record. The fields \<^verbatim>\<open>note\<close>,
  \<^verbatim>\<open>duration_ms\<close> and \<^verbatim>\<open>pitch_ratio\<close> of the record carry the prefix \<open>st_\<close>. Allocation
  and \<^verbatim>\<open>Mix_QuickLoad_RAW\<close> are taken to succeed. The function returns \<^verbatim>\<open>NULL\<close> on every
  path and the thread is detached, so no result of it reaches the scheduler.
\<close>

record SampleThreadData =
  filename :: string
  st_note :: int
  target_note :: int
  channel :: int
  st_duration_ms :: int
  st_pitch_ratio :: rat
  active :: int

datatype audio_event = PlayChannel int "Sint16 list" | Delay int

definition play_sample_thread ::
  "(string \<Rightarrow> Sint16 list option) \<Rightarrow> SampleThreadData \<Rightarrow> SampleThreadData \<times> audio_event list"
where
  "play_sample_thread Mix_LoadWAV data =
     (if filename data = [] \<or> active data = 0 then (data, [])
      else (case Mix_LoadWAV (filename data) of
              None \<Rightarrow> (data, [])
            | Some abuf \<Rightarrow>
                (let sound = (if d_0_001 < \<bar>dsub (st_pitch_ratio data) 1\<bar>
                              then pitch_shift_sample abuf (st_pitch_ratio data) else abuf);
                     play_duration = d2i (ddiv (of_int (st_duration_ms data)) (st_pitch_ratio data))
                 in (data\<lparr>active := 0\<rparr>, [PlayChannel (channel data) sound, Delay play_duration]))))"

section \<open>Loading a song\<close>

text \<open>
  \<^verbatim>\<open>load_song\<close> reads the file with \<^verbatim>\<open>fscanf\<close>. The model starts from what the calls scan:
  the number of each header line (\<open>None\<close> when the line does not match), the numbers of the
  \<^verbatim>\<open>Loop:\<close> line that matched, and the four fields of every cell line (a cell line
  matches as a whole or ends the load). The song is changed in place, so a failed load
  returns 0 together with the song as far as it was overwritten. A missing file is
  \<open>None\<close>.
\<close>

record SongFile =
  f_bpm :: "int option"
  f_rows :: "int option"
  f_channels :: "int option"
  f_loop :: "int list"
  f_cells :: "(int \<times> int \<times> string \<times> string) list"

definition store_cell ::
  "(rat \<Rightarrow> rat \<Rightarrow> rat) \<Rightarrow> int \<Rightarrow> int \<times> int \<times> string \<times> string \<Rightarrow> Cell \<Rightarrow> Cell" where
  "store_cell pw note_duration e c =
     (case e of (n, orig, note_str, smp) \<Rightarrow>
        c\<lparr>cell_note := n, original_note := orig,
          sample := takeWhile (\<lambda>x. x \<noteq> CHR 0x0A) smp,
          duration_ms := note_duration,
          pitch_ratio := (if n > 0 \<and> orig > 0 then calculate_pitch_ratio pw orig n else 1)\<rparr>)"

fun load_cells ::
  "(rat \<Rightarrow> rat \<Rightarrow> rat) \<Rightarrow> int \<Rightarrow> (nat \<times> nat) list \<Rightarrow> (int \<times> int \<times> string \<times> string) list
     \<Rightarrow> Song \<Rightarrow> int \<times> Song" where
  "load_cells pw d [] es song = (1, song)"
| "load_cells pw d (p # ps) [] song = (0, song)"
| "load_cells pw d (p # ps) (e # es) song =
     load_cells pw d ps es (update_cell (store_cell pw d e) (fst p) (snd p) song)"

definition cell_order :: "Song \<Rightarrow> (nat \<times> nat) list" where
  "cell_order song =
     concat (map (\<lambda>ch. map (\<lambda>row. (ch, row)) [0..<nat (num_rows song)])
                 [0..<nat (num_channels song)])"

definition load_song :: "(rat \<Rightarrow> rat \<Rightarrow> rat) \<Rightarrow> Song \<Rightarrow> SongFile option \<Rightarrow> int \<times> Song" where
  "load_song pw song file =
     (case file of
        None \<Rightarrow> (0, song)
      | Some f \<Rightarrow>
          (case f_bpm f of
             None \<Rightarrow> (0, song)
           | Some b \<Rightarrow>
               (let s1 = song\<lparr>bpm := b\<rparr> in
                case f_rows f of
                  None \<Rightarrow> (0, s1)
                | Some r \<Rightarrow>
                    (let s2 = s1\<lparr>num_rows := r\<rparr> in
                     case f_channels f of
                       None \<Rightarrow> (0, s2)
                     | Some c \<Rightarrow>
                         (let s3 = s2\<lparr>num_channels := c\<rparr> in
                          case f_loop f of
                            en # st # en_row # rest \<Rightarrow>
                              (let s4 = s3\<lparr>loop_enabled := en, loop_start := st, loop_end := en_row\<rparr>
                               in load_cells pw (get_note_duration_ms s4) (cell_order s4) (f_cells f) s4)
                          | [en, st] \<Rightarrow> (0, s3\<lparr>loop_enabled := en, loop_start := st\<rparr>)
                          | [en] \<Rightarrow> (0, s3\<lparr>loop_enabled := en\<rparr>)
                          | [] \<Rightarrow> (0, s3))))))"

section \<open>Offline mixer\<close>

text \<open>
  The buffers of \<^verbatim>\<open>save_song_to_wav\<close> are lists of 16-bit words, stereo frames interleaved:
  slot \<open>2 * i\<close> is the left and slot \<open>2 * i + 1\<close> the right sample of frame \<open>i\<close>. Index
  expressions of type \<^verbatim>\<open>Uint32\<close> wrap, written \<open>u32n\<close>.
\<close>

definition u32n :: "nat \<Rightarrow> nat" where
  "u32n n = n mod 2 ^ 32"

definition clamp16 :: "int \<Rightarrow> int" where
  "clamp16 mixed =
     (let m = (if mixed > 32767 then 32767 else mixed) in
      if m < - 32768 then - 32768 else m)"

text \<open>
  The two panning loops of the source (one for a decoded sample, one for a generated tone)
  have the same body: \<open>pan_mix_step\<close>, for frame \<open>i\<close> of the mono voice \<open>voice\<close>.
\<close>

definition pan_mix_step :: "nat \<Rightarrow> Sint16 list \<Rightarrow> nat \<Rightarrow> Sint16 list \<Rightarrow> Sint16 list" where
  "pan_mix_step ch voice i row_buffer =
     (let smp = voice ! i;
          pan = (if ch < 4 then f_0_7 else f_0_3)
      in if ch < 4 then
           (let mixed = sint (row_buffer ! u32n (i * 2))
                          + sint (d2s16 (fmul (of_int (sint smp)) pan))
            in row_buffer[u32n (i * 2) := word_of_int (clamp16 mixed)])
         else
           (let mixed = sint (row_buffer ! u32n (i * 2 + 1))
                          + sint (d2s16 (fmul (of_int (sint smp)) (fsub 1 pan)))
            in row_buffer[u32n (i * 2 + 1) := word_of_int (clamp16 mixed)]))"

definition pan_mix :: "nat \<Rightarrow> Sint16 list \<Rightarrow> Sint16 list \<Rightarrow> Sint16 list" where
  "pan_mix ch voice row_buffer = fold (pan_mix_step ch voice) [0..<length voice] row_buffer"

text \<open>The row buffer is added into the main buffer, frame by frame, with saturation.\<close>

definition mix_main_step :: "nat \<Rightarrow> Sint16 list \<Rightarrow> nat \<Rightarrow> Sint16 list \<Rightarrow> Sint16 list" where
  "mix_main_step start_sample row_buffer i audio_buffer =
     (let dest_idx = u32n (u32n (start_sample + i) * 2);
          mixed_left = sint (audio_buffer ! dest_idx) + sint (row_buffer ! u32n (i * 2));
          buf = audio_buffer[dest_idx := word_of_int (clamp16 mixed_left)];
          mixed_right = sint (buf ! u32n (dest_idx + 1)) + sint (row_buffer ! u32n (i * 2 + 1))
      in buf[u32n (dest_idx + 1) := word_of_int (clamp16 mixed_right)])"

definition mix_main :: "nat \<Rightarrow> nat \<Rightarrow> Sint16 list \<Rightarrow> Sint16 list \<Rightarrow> Sint16 list" where
  "mix_main start_sample row_samples row_buffer audio_buffer =
     fold (mix_main_step start_sample row_buffer) [0..<row_samples] audio_buffer"

text \<open>
  What is outside the program: the decoder of sample files, the sine of the C library
  (\<open>sine_sample n i\<close> is the value \<^verbatim>\<open>(Sint16)(32767 * 0.3 * sin(2.0 * M_PI * freq * i / SAMPLE_RATE))\<close>
  for the frequency of note \<open>n\<close>), and whether SDL, the mixer and \<^verbatim>\<open>fopen\<close> succeed.
\<close>

record Env =
  Mix_LoadWAV :: "string \<Rightarrow> Sint16 list option"
  sine_sample :: "int \<Rightarrow> nat \<Rightarrow> Sint16"
  SDL_Init_ok :: bool
  Mix_OpenAudio_ok :: bool
  fopen_ok :: bool

definition voice_row_buffer :: "Env \<Rightarrow> Cell \<Rightarrow> nat \<Rightarrow> nat \<Rightarrow> Sint16 list" where
  "voice_row_buffer env c ch row_samples =
     (let row_buffer = replicate (u32n (row_samples * 2)) 0 in
      if sample c \<noteq> [] then
        (case Mix_LoadWAV env (sample c) of
           None \<Rightarrow> row_buffer
         | Some abuf \<Rightarrow>
             (let sample_data = (if d_0_001 < \<bar>dsub (pitch_ratio c) 1\<bar>
                                 then pitch_shift_sample abuf (pitch_ratio c) else abuf);
                  samples_to_mix = (if length sample_data < row_samples
                                    then length sample_data else row_samples)
              in pan_mix ch (take samples_to_mix sample_data) row_buffer))
      else pan_mix ch (map (sine_sample env (cell_note c)) [0..<row_samples]) row_buffer)"

definition render_channel ::
  "Env \<Rightarrow> Song \<Rightarrow> int \<Rightarrow> nat \<Rightarrow> nat \<Rightarrow> nat \<Rightarrow> Sint16 list \<Rightarrow> Sint16 list" where
  "render_channel env song actual_row start_sample row_samples ch audio_buffer =
     (let c = cell_at song ch (nat actual_row) in
      if cell_note c > 0
      then mix_main start_sample row_samples (voice_row_buffer env c ch row_samples) audio_buffer
      else audio_buffer)"

definition render_row :: "Env \<Rightarrow> Song \<Rightarrow> int \<Rightarrow> int \<times> int \<Rightarrow> Sint16 list \<Rightarrow> Sint16 list" where
  "render_row env song note_duration r audio_buffer =
     (let current_row = fst r; actual_row = snd r;
          start_sample = nat (u32 (c_div (current_row * note_duration * SAMPLE_RATE) 1000));
          row_samples = nat (u32 (c_div (note_duration * SAMPLE_RATE) 1000))
      in fold (render_channel env song actual_row start_sample row_samples)
           [0..<nat (num_channels song)] audio_buffer)"

section \<open>Offline renderer\<close>

text \<open>
  The \<^verbatim>\<open>while (current_row < total_rows)\<close> loop of \<^verbatim>\<open>save_song_to_wav\<close>. Which rows are
  rendered does not depend on the audio, so the loop is split in two: \<open>render_rows\<close> is
  its control, the list of pairs (\<open>current_row\<close>, \<open>actual_row\<close>) in the order they are
  rendered, and \<open>render_row\<close> above is what one pass does to the main buffer. The buffers
  are taken to be allocated.
\<close>

function render_rows :: "Song \<Rightarrow> int \<Rightarrow> int \<times> int \<Rightarrow> (int \<times> int) list" where
  "render_rows song total_rows st =
     (let current_row = fst st; loops_done = snd st in
      if current_row < total_rows then
        (let actual_row = c_mod current_row (num_rows song) in
         if loop_enabled song \<noteq> 0 \<and> actual_row > loop_end song then
           (if loops_done + 1 \<ge> 4 then []
            else (current_row, loop_start song)
                   # render_rows song total_rows (current_row + 1, loops_done + 1))
         else (current_row, actual_row) # render_rows song total_rows (current_row + 1, loops_done))
      else [])"
  by pat_completeness auto
termination
  by (relation "measure (\<lambda>(song, total_rows, st). nat (total_rows - fst st))") auto

definition total_rows_of :: "Song \<Rightarrow> int" where
  "total_rows_of song =
     (if loop_enabled song \<noteq> 0 \<and> loop_end song > loop_start song
      then (loop_end song - loop_start song + 1) * 4
      else num_rows song)"

definition total_samples_of :: "Song \<Rightarrow> nat" where
  "total_samples_of song =
     nat (u32 (c_div (total_rows_of song * get_note_duration_ms song * SAMPLE_RATE) 1000))"

definition render_song :: "Env \<Rightarrow> Song \<Rightarrow> Sint16 list" where
  "render_song env song =
     fold (render_row env song (get_note_duration_ms song))
       (render_rows song (total_rows_of song) (0, 0))
       (replicate (u32n (total_samples_of song * 2)) 0)"

section \<open>WAV file\<close>

text \<open>
  \<^verbatim>\<open>WavHeader\<close> is a packed struct written with one \<^verbatim>\<open>fwrite\<close>, so the bytes of the file
  are the bytes of its fields in order; the samples follow with a second \<^verbatim>\<open>fwrite\<close>. Both
  are in the byte order of the machine, taken to be little-endian. The field
  \<^verbatim>\<open>num_channels\<close> of the header is \<open>wav_num_channels\<close>.
\<close>

record WavHeader =
  riff :: string
  file_size :: "32 word"
  wave :: string
  fmt :: string
  fmt_size :: "32 word"
  audio_format :: "16 word"
  wav_num_channels :: "16 word"
  sample_rate :: "32 word"
  byte_rate :: "32 word"
  block_align :: "16 word"
  bits_per_sample :: "16 word"
  data :: string
  data_size :: "32 word"

definition make_header :: "nat \<Rightarrow> WavHeader" where
  "make_header total_samples =
     (let channels_h = (2 :: 16 word);
          rate = (word_of_int SAMPLE_RATE :: 32 word);
          bits = (16 :: 16 word);
          align = (word_of_nat (unat channels_h * unat bits div 8) :: 16 word);
          dsize = (word_of_nat (total_samples * 2 * 2) :: 32 word)
      in \<lparr>riff = ''RIFF'', file_size = dsize + 44 - 8, wave = ''WAVE'', fmt = ''fmt '',
          fmt_size = 16, audio_format = 1, wav_num_channels = channels_h,
          sample_rate = rate, byte_rate = rate * ucast align, block_align = align,
          bits_per_sample = bits, data = ''data'', data_size = dsize\<rparr>)"

type_synonym byte = "8 word"

definition le16 :: "16 word \<Rightarrow> byte list" where
  "le16 w = [ucast w, ucast (drop_bit 8 w)]"

definition le32 :: "32 word \<Rightarrow> byte list" where
  "le32 w = [ucast w, ucast (drop_bit 8 w), ucast (drop_bit 16 w), ucast (drop_bit 24 w)]"

definition str_bytes :: "string \<Rightarrow> byte list" where
  "str_bytes cs = map (\<lambda>c. of_nat (of_char c)) cs"

definition wav_header_bytes :: "WavHeader \<Rightarrow> byte list" where
  "wav_header_bytes h =
     str_bytes (riff h) @ le32 (file_size h) @ str_bytes (wave h) @ str_bytes (fmt h)
       @ le32 (fmt_size h) @ le16 (audio_format h) @ le16 (wav_num_channels h)
       @ le32 (sample_rate h) @ le32 (byte_rate h) @ le16 (block_align h)
       @ le16 (bits_per_sample h) @ str_bytes (data h) @ le32 (data_size h)"

definition pcm_bytes :: "Sint16 list \<Rightarrow> byte list" where
  "pcm_bytes buf = concat (map le16 buf)"

text \<open>
  \<^verbatim>\<open>save_song_to_wav\<close>: \<open>None\<close> is the return value 0 (nothing is written), \<open>Some\<close> the
  bytes of the file after the return value 1.
\<close>

definition save_song_to_wav :: "Env \<Rightarrow> Song \<Rightarrow> byte list option" where
  "save_song_to_wav env song =
     (if \<not> SDL_Init_ok env then None
      else if \<not> Mix_OpenAudio_ok env then None
      else (let audio_buffer = render_song env song in
            if \<not> fopen_ok env then None
            else Some (wav_header_bytes (make_header (total_samples_of song))
                         @ pcm_bytes (take (u32n (total_samples_of song * 2)) audio_buffer))))"

section \<open>Example inputs\<close>

text \<open>The song that \<^verbatim>\<open>main\<close> builds before the first key is read.\<close>

definition initial_cell :: Cell where
  "initial_cell = \<lparr>cell_note = 0, original_note = 60, duration_ms = 125, sample = [],
     playing = 0, pitch_ratio = 1\<rparr>"

definition initial_song :: Song where
  "initial_song = \<lparr>channels = replicate 8 \<lparr>cells = replicate 16 initial_cell\<rparr>,
     num_channels = 8, num_rows = 16, bpm = 120, loop_start = 0, loop_end = 15,
     loop_enabled = 0\<rparr>"

text \<open>The same song with the loop window set to rows 2 to 5.\<close>

definition loop_song :: Song where
  "loop_song = initial_song\<lparr>loop_start := 2, loop_end := 5, loop_enabled := 1\<rparr>"

text \<open>
  A song file of 8 channels and 16 rows, every cell a rest, whose loop line reads
  \<^verbatim>\<open>Loop: 1 5 2\<close>; and a stand-in for \<^verbatim>\<open>pow\<close>, which no rest calls.
\<close>

definition bad_loop_file :: SongFile where
  "bad_loop_file = \<lparr>f_bpm = Some 120, f_rows = Some 16, f_channels = Some 8,
     f_loop = [1, 5, 2], f_cells = replicate 128 (0, 60, ''---'', ''-'')\<rparr>"

definition unit_pow :: "rat \<Rightarrow> rat \<Rightarrow> rat" where
  "unit_pow a b = 1"

text \<open>A sample voice that was started for a file that cannot be loaded.\<close>

definition missing_voice :: SampleThreadData where
  "missing_voice = \<lparr>filename = ''missing.wav'', st_note = 60, target_note = 60, channel = 0,
     st_duration_ms = 125, st_pitch_ratio = 1, active = 1\<rparr>"

text \<open>A one-row, one-channel song with the note A4 and no sample.\<close>

definition a4_song :: Song where
  "a4_song = \<lparr>channels = (replicate 8 \<lparr>cells = replicate 16 initial_cell\<rparr>)
       [0 := \<lparr>cells = (replicate 16 initial_cell)[0 := initial_cell\<lparr>cell_note := 69\<rparr>]\<rparr>],
     num_channels = 1, num_rows = 1, bpm = 120, loop_start = 0, loop_end = 15,
     loop_enabled = 0\<rparr>"

text \<open>A short sample buffer.\<close>

definition ramp :: "Sint16 list" where
  "ramp = [100, 200, 300]"

definition quiet_env :: Env where
  "quiet_env = \<lparr>Mix_LoadWAV = (\<lambda>name. None), sine_sample = (\<lambda>n i. 0),
     SDL_Init_ok = True, Mix_OpenAudio_ok = True, fopen_ok = True\<rparr>"

section \<open>Notions used in the proofs\<close>

text \<open>The lengths of the cell arrays of a song, channel by channel.\<close>

definition shape :: "Song \<Rightarrow> nat list" where
  "shape song = map (\<lambda>t. length (cells t)) (channels song)"

text \<open>
  What a channel adds to its side of a frame: the sample times \<^verbatim>\<open>0.7f\<close>, in single
  precision, cast to \<^verbatim>\<open>Sint16\<close>. \<open>pan_side ch j\<close> says that slot \<open>j\<close> of a stereo buffer is
  on the side channel \<open>ch\<close> writes to.
\<close>

definition scaled :: "Sint16 \<Rightarrow> Sint16" where
  "scaled smp = d2s16 (fmul (of_int (sint smp)) f_0_7)"

definition pan_side :: "nat \<Rightarrow> nat \<Rightarrow> bool" where
  "pan_side ch j \<longleftrightarrow> (if ch < 4 then even j else odd j)"

text \<open>The row that follows row \<open>r\<close> while the loop is enabled.\<close>

definition wrap_step :: "Song \<Rightarrow> int \<Rightarrow> int" where
  "wrap_step song r = (if r + 1 > loop_end song then loop_start song else r + 1)"

section \<open>BPM changes\<close>

lemma set_duration_fields [simp]:
  "bpm (set_duration ch row s) = bpm s"
  "num_rows (set_duration ch row s) = num_rows s"
  "num_channels (set_duration ch row s) = num_channels s"
  "loop_start (set_duration ch row s) = loop_start s"
  "loop_end (set_duration ch row s) = loop_end s"
  "loop_enabled (set_duration ch row s) = loop_enabled s"
  by (simp_all add: set_duration_def update_cell_def)

lemma set_duration_dur [simp]:
  "get_note_duration_ms (set_duration ch row s) = get_note_duration_ms s"
  by (simp add: get_note_duration_ms_def)

lemma shape_set_duration [simp]: "shape (set_duration ch row s) = shape s"
proof (cases "ch < length (channels s)")
  case True
  then show ?thesis
    by (intro nth_equalityI)
       (auto simp: shape_def set_duration_def update_cell_def nth_list_update)
next
  case False
  then show ?thesis
    by (simp add: shape_def set_duration_def update_cell_def list_update_beyond)
qed

lemma cell_at_set_duration:
  "cell_at (set_duration ch row s) ch' row' =
     (if ch' = ch \<and> row' = row \<and> ch < length (shape s) \<and> row < shape s ! ch
      then (cell_at s ch row)\<lparr>duration_ms := get_note_duration_ms s\<rparr>
      else cell_at s ch' row')"
proof (cases "ch < length (channels s)")
  case True
  then show ?thesis
    by (cases "row < length (cells (channels s ! ch))")
       (auto simp: cell_at_def set_duration_def update_cell_def shape_def nth_list_update
          list_update_beyond)
next
  case False
  then show ?thesis
    by (simp add: cell_at_def set_duration_def update_cell_def shape_def list_update_beyond)
qed

lemma fold_rows_fields [simp]:
  "bpm (fold (set_duration ch) rs s) = bpm s"
  "num_rows (fold (set_duration ch) rs s) = num_rows s"
  "num_channels (fold (set_duration ch) rs s) = num_channels s"
  "loop_start (fold (set_duration ch) rs s) = loop_start s"
  "loop_end (fold (set_duration ch) rs s) = loop_end s"
  "loop_enabled (fold (set_duration ch) rs s) = loop_enabled s"
  "shape (fold (set_duration ch) rs s) = shape s"
  "get_note_duration_ms (fold (set_duration ch) rs s) = get_note_duration_ms s"
  by (induction rs arbitrary: s; simp)+

lemma cell_at_fold_rows:
  "cell_at (fold (set_duration ch) rs s) ch' row' =
     (if ch' = ch \<and> row' \<in> set rs \<and> ch < length (shape s) \<and> row' < shape s ! ch
      then (cell_at s ch row')\<lparr>duration_ms := get_note_duration_ms s\<rparr>
      else cell_at s ch' row')"
proof (induction rs arbitrary: s)
  case Nil
  then show ?case by simp
next
  case (Cons r rs)
  show ?case
    by (auto simp: Cons.IH cell_at_set_duration)
qed

lemma update_row_durations_fields [simp]:
  "bpm (update_row_durations ch s) = bpm s"
  "num_rows (update_row_durations ch s) = num_rows s"
  "num_channels (update_row_durations ch s) = num_channels s"
  "loop_start (update_row_durations ch s) = loop_start s"
  "loop_end (update_row_durations ch s) = loop_end s"
  "loop_enabled (update_row_durations ch s) = loop_enabled s"
  "shape (update_row_durations ch s) = shape s"
  "get_note_duration_ms (update_row_durations ch s) = get_note_duration_ms s"
  by (simp_all add: update_row_durations_def)

lemma cell_at_update_row_durations:
  "cell_at (update_row_durations ch s) ch' row' =
     (if ch' = ch \<and> row' < nat (num_rows s) \<and> ch < length (shape s) \<and> row' < shape s ! ch
      then (cell_at s ch row')\<lparr>duration_ms := get_note_duration_ms s\<rparr>
      else cell_at s ch' row')"
  by (simp add: update_row_durations_def cell_at_fold_rows)

lemma fold_pass_fields [simp]:
  "bpm (fold update_row_durations cs s) = bpm s"
  "num_rows (fold update_row_durations cs s) = num_rows s"
  "num_channels (fold update_row_durations cs s) = num_channels s"
  "loop_start (fold update_row_durations cs s) = loop_start s"
  "loop_end (fold update_row_durations cs s) = loop_end s"
  "loop_enabled (fold update_row_durations cs s) = loop_enabled s"
  "shape (fold update_row_durations cs s) = shape s"
  "get_note_duration_ms (fold update_row_durations cs s) = get_note_duration_ms s"
  by (induction cs arbitrary: s; simp)+

lemma cell_at_fold_pass:
  "distinct cs \<Longrightarrow> cell_at (fold update_row_durations cs s) ch' row' =
     (if ch' \<in> set cs \<and> row' < nat (num_rows s) \<and> ch' < length (shape s) \<and> row' < shape s ! ch'
      then (cell_at s ch' row')\<lparr>duration_ms := get_note_duration_ms s\<rparr>
      else cell_at s ch' row')"
proof (induction cs arbitrary: s)
  case Nil
  then show ?case by simp
next
  case (Cons c cs)
  then show ?case
    by (auto simp: cell_at_update_row_durations)
qed

lemma song_wf_shape:
  "song_wf s \<Longrightarrow> ch < nat (num_channels s) \<Longrightarrow> row < nat (num_rows s) \<Longrightarrow>
     ch < length (shape s) \<and> row < shape s ! ch"
  by (auto simp: song_wf_def shape_def list_all_length MAX_CHANNELS_def MAX_ROWS_def)

text \<open>
  Claim C10. \<^verbatim>\<open>change_bpm\<close> accepts a new tempo only between 20 and 300. For a number
  outside that range the song comes back as it was, every field and every cell. For a
  number inside it, \<open>bpm\<close> is that number, and every cell of every channel and row the
  song uses has its \<open>duration_ms\<close> set to the row duration of the new tempo,
  \<open>(60000 / new_bpm) / 4\<close>, its other fields kept.
\<close>

theorem change_bpm_range:
  assumes "song_wf song"
  shows "(new_bpm < 20 \<or> 300 < new_bpm \<longrightarrow> change_bpm song new_bpm = song) \<and>
         (20 \<le> new_bpm \<and> new_bpm \<le> 300 \<longrightarrow>
            bpm (change_bpm song new_bpm) = new_bpm \<and>
            get_note_duration_ms (change_bpm song new_bpm) = (60000 div new_bpm) div 4 \<and>
            (\<forall>ch row. ch < nat (num_channels song) \<and> row < nat (num_rows song) \<longrightarrow>
               cell_at (change_bpm song new_bpm) ch row =
                 (cell_at song ch row)\<lparr>duration_ms := (60000 div new_bpm) div 4\<rparr>))"
proof (intro conjI impI)
  assume "new_bpm < 20 \<or> 300 < new_bpm"
  then show "change_bpm song new_bpm = song"
    by (auto simp: change_bpm_def)
next
  assume r: "20 \<le> new_bpm \<and> new_bpm \<le> 300"
  then show "bpm (change_bpm song new_bpm) = new_bpm"
    by (simp add: change_bpm_def update_durations_def)
  have "0 \<le> 60000 div new_bpm" using r by (simp add: pos_imp_zdiv_nonneg_iff)
  then have d: "get_note_duration_ms (song\<lparr>bpm := new_bpm\<rparr>) = (60000 div new_bpm) div 4"
    using r by (auto simp: get_note_duration_ms_def c_div_def)
  show "get_note_duration_ms (change_bpm song new_bpm) = (60000 div new_bpm) div 4"
    using r d by (simp add: change_bpm_def update_durations_def)
  show "\<forall>ch row. ch < nat (num_channels song) \<and> row < nat (num_rows song) \<longrightarrow>
               cell_at (change_bpm song new_bpm) ch row =
                 (cell_at song ch row)\<lparr>duration_ms := (60000 div new_bpm) div 4\<rparr>"
  proof (intro allI impI)
    fix ch row
    assume b: "ch < nat (num_channels song) \<and> row < nat (num_rows song)"
    let ?s = "song\<lparr>bpm := new_bpm\<rparr>"
    have wf: "song_wf ?s" using assms by (simp add: song_wf_def)
    have sh: "ch < length (shape ?s) \<and> row < shape ?s ! ch"
      using song_wf_shape [OF wf, of ch row] b by simp
    have "cell_at (update_durations ?s) ch row =
            (cell_at ?s ch row)\<lparr>duration_ms := get_note_duration_ms ?s\<rparr>"
      using b sh by (simp add: update_durations_def cell_at_fold_pass)
    then show "cell_at (change_bpm song new_bpm) ch row =
                 (cell_at song ch row)\<lparr>duration_ms := (60000 div new_bpm) div 4\<rparr>"
      using r d by (simp add: change_bpm_def cell_at_def)
  qed
qed

theorem change_bpm_range_witness:
  "song_wf initial_song \<and> change_bpm initial_song 19 = initial_song
   \<and> change_bpm initial_song 301 = initial_song
   \<and> bpm (change_bpm initial_song 150) = 150
   \<and> duration_ms (cell_at (change_bpm initial_song 150) 7 15) = 100"
proof -
  have wf: "song_wf initial_song"
    by (simp add: song_wf_def initial_song_def MAX_CHANNELS_def MAX_ROWS_def list_all_length)
  have lo: "change_bpm initial_song 19 = initial_song"
    using change_bpm_range [OF wf, of 19] by simp
  have hi: "change_bpm initial_song 301 = initial_song"
    using change_bpm_range [OF wf, of 301] by simp
  have b: "(7::nat) < nat (num_channels initial_song) \<and> (15::nat) < nat (num_rows initial_song)"
    by (simp add: initial_song_def)
  have mid: "bpm (change_bpm initial_song 150) = 150 \<and>
             cell_at (change_bpm initial_song 150) 7 15 =
               (cell_at initial_song 7 15)\<lparr>duration_ms := (60000 div 150) div 4\<rparr>"
    using change_bpm_range [OF wf, of 150] b by simp
  show ?thesis using wf lo hi mid by simp
qed

section \<open>Row sequence of the scheduler\<close>

lemma advance_row_loop:
  "loop_enabled song \<noteq> 0 \<Longrightarrow>
     \<exists>lc'. advance_row song (r, lc) = Some (wrap_step song r, lc')"
  by (simp add: advance_row_def wrap_step_def Let_def)

lemma play_song_loop_enabled:
  "loop_enabled song \<noteq> 0 \<Longrightarrow>
     fst (play_song_loop song (replicate n False) (r, lc)) =
       map (\<lambda>k. (wrap_step song ^^ k) r) [0..<n]"
proof (induction n arbitrary: r lc)
  case 0
  then show ?case by simp
next
  case (Suc n)
  obtain lc' where a: "advance_row song (r, lc) = Some (wrap_step song r, lc')"
    using advance_row_loop [OF Suc.prems] by blast
  have "map (\<lambda>k. (wrap_step song ^^ k) r) [0..<Suc n] =
          r # map (\<lambda>k. (wrap_step song ^^ k) (wrap_step song r)) [0..<n]"
    by (simp add: upt_conv_Cons map_Suc_upt [symmetric] funpow_swap1 del: upt_Suc)
  then show ?case
    using a Suc.IH [OF Suc.prems, of "wrap_step song r" lc'] by (simp add: Let_def)
qed

lemma mod_succ_int:
  fixes a L :: int
  assumes "0 < L"
  shows "(a + 1) mod L = (if a mod L + 1 = L then 0 else a mod L + 1)"
proof -
  have b: "0 \<le> a mod L" "a mod L < L"
    using assms by (rule pos_mod_sign, rule pos_mod_bound)
  have "(a + 1) mod L = (a mod L + 1) mod L"
    by (simp add: mod_add_left_eq)
  also have "\<dots> = (if a mod L + 1 = L then 0 else a mod L + 1)"
    using b by (auto simp: mod_pos_pos_trivial)
  finally show ?thesis .
qed

lemma wrap_step_mod:
  assumes "loop_start song \<le> loop_end song"
  shows "wrap_step song (loop_start song + a mod (loop_end song - loop_start song + 1)) =
           loop_start song + (a + 1) mod (loop_end song - loop_start song + 1)"
proof -
  define L where "L = loop_end song - loop_start song + 1"
  define m where "m = a mod L"
  have L: "0 < L" using assms by (simp add: L_def)
  have b: "0 \<le> m" "m < L"
    unfolding m_def using L by (rule pos_mod_sign, rule pos_mod_bound)
  have s: "(a + 1) mod L = (if m + 1 = L then 0 else m + 1)"
    unfolding m_def using L by (rule mod_succ_int)
  have "wrap_step song (loop_start song + m) = loop_start song + (if m + 1 = L then 0 else m + 1)"
    using b by (auto simp: wrap_step_def L_def)
  then have "wrap_step song (loop_start song + m) = loop_start song + (a + 1) mod L"
    by (simp only: s)
  then show ?thesis
    by (simp only: m_def L_def)
qed

lemma wrap_closed_form:
  assumes "0 \<le> loop_start song" "loop_start song \<le> loop_end song"
  shows "(wrap_step song ^^ k) 0 =
           (if int k \<le> loop_end song then int k
            else loop_start song + (int k - loop_start song) mod (loop_end song - loop_start song + 1))"
proof (induction k)
  case 0
  then show ?case using assms by simp
next
  case (Suc k)
  define ls where "ls = loop_start song"
  define le where "le = loop_end song"
  define L where "L = le - ls + 1"
  have L: "0 < L" using assms by (simp add: L_def ls_def le_def)
  have IH: "(wrap_step song ^^ k) 0 = (if int k \<le> le then int k else ls + (int k - ls) mod L)"
    using Suc by (simp add: ls_def le_def L_def)
  have st: "(wrap_step song ^^ Suc k) 0 = wrap_step song ((wrap_step song ^^ k) 0)"
    by simp
  have goal: "(wrap_step song ^^ Suc k) 0 =
                (if int (Suc k) \<le> le then int (Suc k) else ls + (int (Suc k) - ls) mod L)"
  proof (cases "int k < le")
    case True
    then have "(wrap_step song ^^ k) 0 = int k" using IH by simp
    then have "(wrap_step song ^^ Suc k) 0 = wrap_step song (int k)" using st by simp
    also have "\<dots> = int k + 1" using True by (simp add: wrap_step_def le_def)
    finally show ?thesis using True by simp
  next
    case False
    have cur: "(wrap_step song ^^ k) 0 = ls + (int k - ls) mod L"
    proof (cases "int k = le")
      case True
      have "int k - ls < L" "0 \<le> int k - ls" using True assms by (simp_all add: L_def ls_def le_def)
      then have "(int k - ls) mod L = int k - ls" by (simp add: mod_pos_pos_trivial)
      then show ?thesis using IH True by simp
    next
      case False
      then show ?thesis using IH \<open>\<not> int k < le\<close> by simp
    qed
    have "(wrap_step song ^^ Suc k) 0 = wrap_step song (ls + (int k - ls) mod L)"
      using st cur by simp
    also have "\<dots> = ls + (int k - ls + 1) mod L"
      unfolding ls_def le_def L_def using assms(2) by (rule wrap_step_mod)
    also have "int k - ls + 1 = int (Suc k) - ls" by simp
    finally show ?thesis using False by simp
  qed
  then show ?case by (simp only: ls_def le_def L_def)
qed

lemma play_song_loop_disabled:
  "loop_enabled song = 0 \<Longrightarrow> r < num_rows song \<Longrightarrow> nat (num_rows song - r) \<le> n \<Longrightarrow>
     play_song_loop song (replicate n False) (r, lc) = ([r..num_rows song - 1], lc)"
proof (induction n arbitrary: r)
  case 0
  then show ?case by simp
next
  case (Suc n)
  show ?case
  proof (cases "r + 1 \<ge> num_rows song")
    case True
    then have "[r..num_rows song - 1] = [r]" using Suc.prems by (simp add: upto_rec1)
    then show ?thesis using True Suc.prems by (simp add: advance_row_def)
  next
    case False
    then have "play_song_loop song (replicate n False) (r + 1, lc) = ([r + 1..num_rows song - 1], lc)"
      using Suc.prems by (intro Suc.IH) auto
    moreover have "[r..num_rows song - 1] = r # [r + 1..num_rows song - 1]"
      using False by (simp add: upto_rec1)
    ultimately show ?thesis using False Suc.prems by (simp add: advance_row_def)
  qed
qed

lemma play_song_rows_loop:
  assumes "loop_enabled song \<noteq> 0" "0 \<le> loop_start song" "loop_start song \<le> loop_end song"
  shows "play_song_rows song (replicate n False) =
           map (\<lambda>k. if int k \<le> loop_end song then int k
                    else loop_start song
                           + (int k - loop_start song) mod (loop_end song - loop_start song + 1))
               [0..<n]"
  using assms
  by (simp add: play_song_rows_def play_song_loop_enabled wrap_closed_form)

text \<open>
  Claim C6. After a row has been played the scheduler goes to \<open>current_row + 1\<close>; with the
  loop enabled it goes to \<open>loop_start\<close> instead when that row is past \<open>loop_end\<close> (and
  counts a loop), with the loop disabled it stops when that row reaches \<open>num_rows\<close>. With
  the loop window 2 to 5 and no key pressed, the rows played are 0,1,2,3,4,5,2,3,4,5,2,...:
  row \<open>k\<close> of the run is \<open>k\<close> up to 5 and \<open>2 + (k - 2) mod 4\<close> from there on. With the loop
  disabled the rows played are \<open>0\<close> to \<open>num_rows - 1\<close>, once.
\<close>

theorem play_song_row_sequence:
  "advance_row song (r, lc) =
     (if loop_enabled song \<noteq> 0
      then (if r + 1 > loop_end song then Some (loop_start song, lc + 1) else Some (r + 1, lc))
      else (if r + 1 \<ge> num_rows song then None else Some (r + 1, lc)))
   \<and> (loop_enabled song \<noteq> 0 \<and> loop_start song = 2 \<and> loop_end song = 5 \<longrightarrow>
        play_song_rows song (replicate n False) =
          map (\<lambda>k. if int k \<le> 5 then int k else 2 + (int k - 2) mod 4) [0..<n]
        \<and> play_song_rows song (replicate 11 False) = [0, 1, 2, 3, 4, 5, 2, 3, 4, 5, 2])
   \<and> (loop_enabled song = 0 \<and> 0 < num_rows song \<and> nat (num_rows song) \<le> n \<longrightarrow>
        play_song_rows song (replicate n False) = [0..num_rows song - 1])"
proof (intro conjI impI)
  show "advance_row song (r, lc) =
     (if loop_enabled song \<noteq> 0
      then (if r + 1 > loop_end song then Some (loop_start song, lc + 1) else Some (r + 1, lc))
      else (if r + 1 \<ge> num_rows song then None else Some (r + 1, lc)))"
    by (simp add: advance_row_def Let_def)
next
  assume a: "loop_enabled song \<noteq> 0 \<and> loop_start song = 2 \<and> loop_end song = 5"
  have g: "\<And>m. play_song_rows song (replicate m False) =
          map (\<lambda>k. if int k \<le> 5 then int k else 2 + (int k - 2) mod 4) [0..<m]"
    using a play_song_rows_loop [of song] by simp
  show "play_song_rows song (replicate n False) =
          map (\<lambda>k. if int k \<le> 5 then int k else 2 + (int k - 2) mod 4) [0..<n]"
    by (rule g)
  have "[0..<11] = [0, 1, 2, 3, 4, 5, 6, 7, 8, 9, 10 :: nat]"
    by (simp add: upt_conv_Cons)
  then show "play_song_rows song (replicate 11 False) = [0, 1, 2, 3, 4, 5, 2, 3, 4, 5, 2]"
    by (simp add: g)
next
  assume a: "loop_enabled song = 0 \<and> 0 < num_rows song \<and> nat (num_rows song) \<le> n"
  then show "play_song_rows song (replicate n False) = [0..num_rows song - 1]"
    using play_song_loop_disabled [of song 0 n 0] by (simp add: play_song_rows_def)
qed

theorem play_song_row_sequence_witness:
  "loop_enabled loop_song \<noteq> 0 \<and> loop_start loop_song = 2 \<and> loop_end loop_song = 5
   \<and> play_song_rows loop_song (replicate 11 False) = [0, 1, 2, 3, 4, 5, 2, 3, 4, 5, 2]
   \<and> loop_enabled initial_song = 0 \<and> 0 < num_rows initial_song
   \<and> play_song_rows initial_song (replicate 20 False)
         = [0, 1, 2, 3, 4, 5, 6, 7, 8, 9, 10, 11, 12, 13, 14, 15]"
proof -
  have l: "loop_enabled loop_song \<noteq> 0 \<and> loop_start loop_song = 2 \<and> loop_end loop_song = 5"
    by (simp add: loop_song_def initial_song_def)
  have i: "loop_enabled initial_song = 0 \<and> 0 < num_rows initial_song
             \<and> nat (num_rows initial_song) \<le> 20"
    by (simp add: initial_song_def)
  have u: "[0..num_rows initial_song - 1] = [0, 1, 2, 3, 4, 5, 6, 7, 8, 9, 10, 11, 12, 13, 14, 15]"
    by (simp add: initial_song_def upto_rec1)
  from play_song_row_sequence [of loop_song 0 0 11] l
  have a: "play_song_rows loop_song (replicate 11 False) = [0, 1, 2, 3, 4, 5, 2, 3, 4, 5, 2]"
    by blast
  from play_song_row_sequence [of initial_song 0 0 20] i
  have b: "play_song_rows initial_song (replicate 20 False) = [0..num_rows initial_song - 1]"
    by blast
  show ?thesis
    using l i a b u by simp
qed

section \<open>Loop window\<close>

lemma set_loop_establishes_inv: "loop_inv (set_loop song choice start end_row)"
  by (simp add: set_loop_def loop_inv_def Let_def)

lemma load_cells_fields:
  "loop_enabled (snd (load_cells pw d ps es song)) = loop_enabled song \<and>
   loop_start (snd (load_cells pw d ps es song)) = loop_start song \<and>
   loop_end (snd (load_cells pw d ps es song)) = loop_end song \<and>
   num_rows (snd (load_cells pw d ps es song)) = num_rows song"
  by (induction pw d ps es song rule: load_cells.induct) (simp_all add: update_cell_def)

lemma load_song_loop_unchecked:
  assumes "file = \<lparr>f_bpm = Some b, f_rows = Some r, f_channels = Some c,
                    f_loop = [en, st, e], f_cells = es\<rparr>"
  shows "loop_enabled (snd (load_song pw song (Some file))) = en \<and>
         loop_start (snd (load_song pw song (Some file))) = st \<and>
         loop_end (snd (load_song pw song (Some file))) = e"
  by (simp add: assms load_song_def load_cells_fields Let_def)

text \<open>
  Claim C5. Every operation that edits the loop window should leave \<open>loop_inv\<close> in
  place. \<^verbatim>\<open>set_loop\<close> does (lemma \<open>set_loop_establishes_inv\<close>): it rejects the rows 5 and
  2 and disables the loop. \<^verbatim>\<open>load_song\<close> does not: it stores the three numbers of the
  \<^verbatim>\<open>Loop:\<close> line as they are. After the load below succeeds the loop is enabled with
  \<open>loop_start = 5\<close> and \<open>loop_end = 2\<close>, and the scheduler plays rows 0, 1, 2 and then
  row 5 for ever.
\<close>

theorem load_song_keeps_invalid_loop:
  "fst (load_song unit_pow initial_song (Some bad_loop_file)) = 1 \<and>
   loop_enabled (snd (load_song unit_pow initial_song (Some bad_loop_file))) = 1 \<and>
   loop_start (snd (load_song unit_pow initial_song (Some bad_loop_file))) = 5 \<and>
   loop_end (snd (load_song unit_pow initial_song (Some bad_loop_file))) = 2 \<and>
   num_rows (snd (load_song unit_pow initial_song (Some bad_loop_file))) = 16 \<and>
   loop_enabled (set_loop initial_song CHR ''y'' 5 2) = 0 \<and>
   play_song_rows (snd (load_song unit_pow initial_song (Some bad_loop_file))) (replicate 6 False)
     = [0, 1, 2, 5, 5, 5]"
  by code_simp

section \<open>Sample voice whose file cannot be loaded\<close>

lemma play_sample_thread_load_fails:
  "ld (filename d) = None \<Longrightarrow> play_sample_thread ld d = (d, [])"
  by (simp add: play_sample_thread_def)

lemma play_sample_thread_load_ok:
  "filename d \<noteq> [] \<Longrightarrow> active d \<noteq> 0 \<Longrightarrow> ld (filename d) = Some abuf \<Longrightarrow>
     active (fst (play_sample_thread ld d)) = 0"
  by (simp add: play_sample_thread_def Let_def)

text \<open>
  Claim C4. A sample voice whose file cannot be loaded should play nothing, clear its
  \<open>active\<close> flag and report no error. The thread function does play nothing and has no
  error to report, but it returns before the assignment \<^verbatim>\<open>data->active = 0\<close> that ends the
  successful path (lemma \<open>play_sample_thread_load_ok\<close>): the record comes back unchanged,
  with \<open>active = 1\<close>.
\<close>

theorem play_sample_thread_missing_file:
  "play_sample_thread (\<lambda>name. None) missing_voice = (missing_voice, []) \<and>
   active (fst (play_sample_thread (\<lambda>name. None) missing_voice)) = 1"
  by (simp add: play_sample_thread_def missing_voice_def)

section \<open>Rows of the offline renderer\<close>

text \<open>
  Claim C2. With the loop enabled the renderer should render \<open>(loop_end - loop_start + 1) * 4\<close>
  rows, following the rows of the scheduler through four passes of the loop. For the
  window 2 to 5 of a 16-row song it sizes the buffer for 16 rows, but renders 9: the rows
  0 to 5 and then row 2 three times, because \<open>actual_row\<close> is \<open>current_row % num_rows\<close>
  and every row past \<open>loop_end\<close> is replaced by \<open>loop_start\<close> and counted as a loop. The
  scheduler plays 0,1,2,3,4,5,2,3,4,5,2,3,4,5,2,3 in its first 16 rows.
\<close>

theorem render_rows_loop_2_5:
  "total_rows_of loop_song = 16 \<and>
   map snd (render_rows loop_song (total_rows_of loop_song) (0, 0)) = [0, 1, 2, 3, 4, 5, 2, 2, 2] \<and>
   play_song_rows loop_song (replicate 16 False)
     = [0, 1, 2, 3, 4, 5, 2, 3, 4, 5, 2, 3, 4, 5, 2, 3]"
  by code_simp

section \<open>Rounding\<close>

text \<open>
  What the proofs need to know about \<open>rnd\<close>: the exponent is the right one, the result
  is within half a unit in the last place of the argument, rounding never crosses an
  integer that the format holds, and a number the format holds is left as it is.
\<close>

lemma two_powi_pos [simp]: "0 < (2::rat) powi s"
  by (simp add: power_int_def)

lemma two_powi_neg_nat: "(2::rat) powi (- int k) = 1 / 2 ^ k"
  by (simp add: power_int_minus field_simps)

lemma expo_lower_ge1:
  assumes "1 \<le> a" "fl = floorlog 2 (nat \<lfloor>a\<rfloor>)"
  shows "(2::rat) powi (int fl - 1) \<le> a" and "a < 2 powi (int fl)"
proof -
  define n where "n = nat \<lfloor>a\<rfloor>"
  have f0: "0 \<le> \<lfloor>a\<rfloor>" using assms by simp
  have fa: "rat_of_int \<lfloor>a\<rfloor> \<le> a" "a < rat_of_int \<lfloor>a\<rfloor> + 1" by linarith+
  have "rat_of_nat n = rat_of_int \<lfloor>a\<rfloor>"
    unfolding n_def using f0 by (simp only: of_nat_nat)
  then have na: "rat_of_nat n \<le> a" "a < rat_of_nat n + 1"
    using fa by simp_all
  have n1: "1 \<le> n"
  proof -
    have "1 \<le> \<lfloor>a\<rfloor>" using assms(1) by (simp add: le_floor_iff)
    then show ?thesis unfolding n_def by arith
  qed
  have fl: "fl = floorlog 2 n" by (simp add: assms(2) n_def)
  have b: "2 ^ (fl - 1) \<le> n \<and> n < 2 ^ fl"
    unfolding fl using n1 by (intro floorlog_bounds) auto
  have fl1: "1 \<le> fl"
  proof (rule ccontr)
    assume "\<not> 1 \<le> fl"
    then have "fl = 0" by simp
    then show False using b n1 by simp
  qed
  have "int fl - 1 = int (fl - 1)" using fl1 by simp
  then have e1: "(2::rat) powi (int fl - 1) = 2 ^ (fl - 1)"
    by (simp only: power_int_of_nat)
  have e2: "(2::rat) powi (int fl) = 2 ^ fl"
    by (simp only: power_int_of_nat)
  have "rat_of_nat (2 ^ (fl - 1)) \<le> rat_of_nat n"
    using b by (simp only: of_nat_le_iff)
  then have "(2::rat) ^ (fl - 1) \<le> rat_of_nat n" by simp
  then have "(2::rat) ^ (fl - 1) \<le> a" using na(1) by (rule order_trans)
  then show "(2::rat) powi (int fl - 1) \<le> a" by (simp only: e1)
  have "n + 1 \<le> 2 ^ fl" using b by simp
  then have "rat_of_nat (n + 1) \<le> rat_of_nat (2 ^ fl)"
    by (simp only: of_nat_le_iff)
  then have "rat_of_nat n + 1 \<le> 2 ^ fl" by simp
  then have "a < 2 ^ fl" using na(2) by (rule less_le_trans [rotated])
  then show "a < 2 powi (int fl)" by (simp only: e2)
qed

lemma expo_bounds:
  assumes "x \<noteq> 0"
  shows "2 powi expo x \<le> \<bar>x\<bar> \<and> \<bar>x\<bar> < 2 powi (expo x + 1)"
proof (cases "1 \<le> \<bar>x\<bar>")
  case True
  define fl where "fl = floorlog 2 (nat \<lfloor>\<bar>x\<bar>\<rfloor>)"
  have "expo x = int fl - 1"
    using True by (simp add: expo_def fl_def)
  then show ?thesis using expo_lower_ge1 [OF True fl_def] by simp
next
  case False
  define a where "a = \<bar>x\<bar>"
  have a: "0 < a" "a < 1" using assms False by (simp_all add: a_def)
  define b where "b = 1 / a"
  have b1: "1 \<le> b" using a by (simp add: b_def)
  define fl where "fl = floorlog 2 (nat \<lfloor>b\<rfloor>)"
  define k where "k = int fl - 1"
  have kb: "2 powi k \<le> b" "b < 2 powi (k + 1)"
    using expo_lower_ge1 [OF b1 fl_def] by (simp_all add: k_def)
  have p: "0 < (2::rat) powi k" by simp
  have k1: "(2::rat) powi (k + 1) = 2 powi k * 2"
  proof -
    have "(2::rat) powi (k + 1) = 2 powi k * 2 powi 1" by (rule power_int_add) simp
    then show ?thesis by simp
  qed
  have up: "a * 2 powi k \<le> 1"
    using kb(1) a by (simp add: b_def field_simps)
  have lo: "1 < a * (2 powi k * 2)"
    using kb(2) a unfolding k1 by (simp add: b_def field_simps)
  have ex: "expo x = (if a * 2 powi k = 1 then - k else - (k + 1))"
    using False by (simp add: expo_def a_def b_def k_def fl_def Let_def)
  have m1: "(2::rat) powi (- k) = 1 / 2 powi k"
    by (simp only: power_int_minus inverse_eq_divide)
  have m2: "(2::rat) powi (- (k + 1)) = 1 / 2 powi (k + 1)"
    by (simp only: power_int_minus inverse_eq_divide)
  show ?thesis
  proof (cases "a * 2 powi k = 1")
    case True
    then have av: "a = 1 / 2 powi k" using p by (simp add: field_simps)
    have "(2::rat) powi (- k + 1) = 2 powi (- k) * 2 powi 1" by (rule power_int_add) simp
    then have u: "(2::rat) powi (- k + 1) = 2 * a" by (simp add: m1 av)
    have l: "(2::rat) powi (- k) = a" by (simp add: m1 av)
    have "expo x = - k" using True ex by simp
    then show ?thesis using l u a by (simp add: a_def [symmetric])
  next
    case False
    then have lt: "a * 2 powi k < 1" using up by simp
    have l: "2 powi (- (k + 1)) \<le> a"
      using lo p unfolding m2 k1 by (simp add: field_simps)
    have "- (k + 1) + 1 = - k" by simp
    then have e: "(2::rat) powi (- (k + 1) + 1) = 1 / 2 powi k" by (simp only: m1)
    have "a < 1 / 2 powi k" using lt p by (simp add: pos_less_divide_eq)
    then have u: "a < 2 powi (- (k + 1) + 1)" by (simp only: e)
    have "expo x = - (k + 1)" using False ex by simp
    then show ?thesis using l u by (simp only: a_def [symmetric])
  qed
qed

lemma rhe_cases:
  "round_half_even m = \<lfloor>m\<rfloor> \<and> m - of_int \<lfloor>m\<rfloor> \<le> 1 / 2 \<or>
   round_half_even m = \<lfloor>m\<rfloor> + 1 \<and> 1 / 2 \<le> m - of_int \<lfloor>m\<rfloor>"
  by (auto simp: round_half_even_def Let_def)

lemma rhe_error: "\<bar>of_int (round_half_even m) - m\<bar> \<le> 1 / 2"
proof -
  have f: "of_int \<lfloor>m\<rfloor> \<le> m" "m < of_int \<lfloor>m\<rfloor> + 1" by linarith+
  show ?thesis using rhe_cases [of m] f by auto
qed

lemma rhe_le: "m \<le> of_int k \<Longrightarrow> round_half_even m \<le> k"
proof -
  assume a: "m \<le> of_int k"
  then have f: "\<lfloor>m\<rfloor> \<le> k" by (simp add: floor_le_iff) 
  show ?thesis
  proof (cases "round_half_even m = \<lfloor>m\<rfloor>")
    case True
    then show ?thesis using f by simp
  next
    case False
    then have r: "round_half_even m = \<lfloor>m\<rfloor> + 1" "1 / 2 \<le> m - of_int \<lfloor>m\<rfloor>"
      using rhe_cases [of m] by auto
    then have "(of_int \<lfloor>m\<rfloor> :: rat) < of_int k" using a by linarith
    then have "\<lfloor>m\<rfloor> < k" by simp
    then show ?thesis using r by simp
  qed
qed

lemma rhe_ge: "of_int k \<le> m \<Longrightarrow> k \<le> round_half_even m"
proof -
  assume a: "of_int k \<le> m"
  then have "k \<le> \<lfloor>m\<rfloor>" by (simp add: le_floor_iff)
  then show ?thesis using rhe_cases [of m] by auto
qed

lemma rnd_zero [simp]: "rnd p 0 = 0"
  by (simp add: rnd_def)

lemma rnd_error:
  "\<bar>rnd p x - x\<bar> \<le> \<bar>x\<bar> / 2 ^ p"
proof (cases "x = 0")
  case True
  then show ?thesis by simp
next
  case False
  define s where "s = expo x - (int p - 1)"
  define S where "S = (2::rat) powi s"
  define m where "m = x / S"
  have S: "0 < S" by (simp add: S_def)
  have r: "rnd p x = of_int (round_half_even m) * S"
    using False by (simp add: rnd_def s_def S_def m_def Let_def)
  have "rnd p x - x = (of_int (round_half_even m) - m) * S"
    using S by (simp add: r m_def field_simps)
  then have "\<bar>rnd p x - x\<bar> = \<bar>of_int (round_half_even m) - m\<bar> * S"
    using S by (simp add: abs_mult)
  also have "\<dots> \<le> (1 / 2) * S"
    using rhe_error [of m] S by (intro mult_right_mono) auto
  also have "(1 / 2) * S = 2 powi expo x / 2 ^ p"
  proof -
    have "s = expo x + (- int p + 1)" by (simp add: s_def)
    moreover have "(2::rat) powi (expo x + (- int p + 1)) = 2 powi expo x * 2 powi (- int p + 1)"
      by (rule power_int_add) simp
    ultimately have "S = 2 powi expo x * 2 powi (- int p + 1)"
      by (simp only: S_def)
    moreover have "(2::rat) powi (- int p + 1) = 2 powi (- int p) * 2 powi 1"
      by (rule power_int_add) simp
    moreover have "(2::rat) powi (- int p) = 1 / 2 ^ p" by (rule two_powi_neg_nat)
    ultimately show ?thesis by simp
  qed
  also have "\<dots> \<le> \<bar>x\<bar> / 2 ^ p"
    using expo_bounds [OF False] by (simp add: divide_right_mono)
  finally show ?thesis .
qed

lemma expo_less:
  assumes "x \<noteq> 0" "\<bar>x\<bar> < 2 ^ p"
  shows "expo x < int p"
proof (rule ccontr)
  assume "\<not> expo x < int p"
  then have "int p \<le> expo x" by simp
  then have "(2::rat) powi int p \<le> 2 powi expo x"
    by (intro power_int_increasing) auto
  then have "(2::rat) ^ p \<le> \<bar>x\<bar>"
    using expo_bounds [OF assms(1)] by simp
  then show False using assms(2) by simp
qed

lemma rnd_scaled:
  assumes "x \<noteq> 0" "\<bar>x\<bar> < 2 ^ p"
  shows "\<exists>K. rnd p x = of_int (round_half_even (x * 2 ^ K)) / 2 ^ K"
proof -
  define s where "s = expo x - (int p - 1)"
  have "s \<le> 0" using expo_less [OF assms] by (simp add: s_def)
  define K where "K = nat (- s)"
  have sK: "s = - int K" using \<open>s \<le> 0\<close> by (simp add: K_def)
  have "(2::rat) powi s = 1 / 2 ^ K" by (simp add: sK two_powi_neg_nat)
  then have "rnd p x = of_int (round_half_even (x * 2 ^ K)) / 2 ^ K"
    using assms(1) by (simp add: rnd_def s_def [symmetric] Let_def)
  then show ?thesis ..
qed

lemma rnd_le_of_int:
  assumes "x \<le> of_int n" "\<bar>x\<bar> < 2 ^ p"
  shows "rnd p x \<le> of_int n"
proof (cases "x = 0")
  case True
  then show ?thesis using assms by simp
next
  case False
  obtain K where K: "rnd p x = of_int (round_half_even (x * 2 ^ K)) / 2 ^ K"
    using rnd_scaled [OF False assms(2)] by blast
  have "x * 2 ^ K \<le> of_int (n * 2 ^ K)"
    using assms(1) by (simp add: mult_right_mono)
  then have "round_half_even (x * 2 ^ K) \<le> n * 2 ^ K" by (rule rhe_le)
  then have "(of_int (round_half_even (x * 2 ^ K)) :: rat) \<le> of_int (n * 2 ^ K)"
    by (simp only: of_int_le_iff)
  then have "(of_int (round_half_even (x * 2 ^ K)) :: rat) / 2 ^ K \<le> of_int n"
    by (simp add: field_simps)
  then show ?thesis using K by simp
qed

lemma rnd_ge_of_int:
  assumes "of_int n \<le> x" "\<bar>x\<bar> < 2 ^ p"
  shows "of_int n \<le> rnd p x"
proof (cases "x = 0")
  case True
  then show ?thesis using assms by simp
next
  case False
  obtain K where K: "rnd p x = of_int (round_half_even (x * 2 ^ K)) / 2 ^ K"
    using rnd_scaled [OF False assms(2)] by blast
  have "of_int (n * 2 ^ K) \<le> x * 2 ^ K"
    using assms(1) by (simp add: mult_right_mono)
  then have "n * 2 ^ K \<le> round_half_even (x * 2 ^ K)" by (rule rhe_ge)
  then have "(of_int (n * 2 ^ K) :: rat) \<le> of_int (round_half_even (x * 2 ^ K))"
    by (simp only: of_int_le_iff)
  then have "of_int n \<le> (of_int (round_half_even (x * 2 ^ K)) :: rat) / 2 ^ K"
    by (simp add: field_simps)
  then show ?thesis using K by simp
qed

lemma rnd_of_int:
  assumes "\<bar>of_int n :: rat\<bar> < 2 ^ p"
  shows "rnd p (of_int n) = of_int n"
  using rnd_le_of_int [of "of_int n" n p] rnd_ge_of_int [of n "of_int n" p] assms by simp

lemma rnd_error_bound:
  assumes "\<bar>x\<bar> \<le> B"
  shows "\<bar>rnd p x - x\<bar> \<le> B / 2 ^ p"
proof -
  have "\<bar>x\<bar> / 2 ^ p \<le> B / 2 ^ p" using assms by (simp add: divide_right_mono)
  then show ?thesis using rnd_error [of p x] by linarith
qed

lemma rnd_unit_interval:
  assumes "0 \<le> x" "x \<le> 1" "0 < p"
  shows "0 \<le> rnd p x \<and> rnd p x \<le> 1"
proof -
  have "(1::rat) < 2 ^ p" using assms(3) by (intro one_less_power) simp_all
  then have a: "\<bar>x\<bar> < 2 ^ p" using assms(1,2) by linarith
  have "rat_of_int 0 \<le> rnd p x" using assms a by (intro rnd_ge_of_int) simp_all
  moreover have "rnd p x \<le> rat_of_int 1" using assms a by (intro rnd_le_of_int) simp_all
  ultimately show ?thesis by simp
qed

lemma rhe_of_int: "round_half_even (of_int n) = n"
  using rhe_le [of "of_int n" n] rhe_ge [of n "of_int n"] by simp

lemma expo_less_powi:
  assumes "x \<noteq> 0" "\<bar>x\<bar> < 2 powi j"
  shows "expo x < j"
proof (rule ccontr)
  assume "\<not> expo x < j"
  then have "j \<le> expo x" by simp
  then have "(2::rat) powi j \<le> 2 powi expo x"
    by (intro power_int_increasing) auto
  then have "(2::rat) powi j \<le> \<bar>x\<bar>"
    using expo_bounds [OF assms(1)] by simp
  then show False using assms(2) by simp
qed

lemma rnd_dyadic:
  assumes "\<bar>m\<bar> < 2 ^ p"
  shows "rnd p (of_int m / 2 ^ k) = of_int m / 2 ^ k"
proof (cases "m = 0")
  case True
  then show ?thesis by simp
next
  case False
  define x where "x = rat_of_int m / 2 ^ k"
  have x0: "x \<noteq> 0" using False by (simp add: x_def)
  have "rat_of_int \<bar>m\<bar> < rat_of_int (2 ^ p)" using assms by (simp only: of_int_less_iff)
  then have mp: "\<bar>rat_of_int m\<bar> < 2 ^ p" by simp
  have pk: "(2::rat) powi (int p - int k) = 2 ^ p / 2 ^ k"
    by (simp add: power_int_diff)
  have "\<bar>x\<bar> = \<bar>rat_of_int m\<bar> / 2 ^ k" by (simp add: x_def)
  also have "\<dots> < 2 ^ p / 2 ^ k" using mp by (simp add: divide_strict_right_mono)
  finally have "\<bar>x\<bar> < 2 powi (int p - int k)" by (simp only: pk)
  then have e: "expo x < int p - int k" using x0 by (intro expo_less_powi)
  define s where "s = expo x - (int p - 1)"
  define K where "K = nat (- s)"
  have sK: "s = - int K" and Kk: "k \<le> K" using e by (simp_all add: s_def K_def)
  have S: "(2::rat) powi s = 1 / 2 ^ K" by (simp add: sK two_powi_neg_nat)
  have "(2::rat) ^ K = 2 ^ (K - k) * 2 ^ k"
    using Kk by (simp add: power_add [symmetric])
  then have xi: "x * 2 ^ K = rat_of_int (m * 2 ^ (K - k))" by (simp add: x_def)
  have "rnd p x = rat_of_int (round_half_even (x * 2 ^ K)) / 2 ^ K"
    using x0 by (simp add: rnd_def s_def [symmetric] S Let_def)
  also have "\<dots> = rat_of_int (m * 2 ^ (K - k)) / 2 ^ K"
    by (simp only: xi rhe_of_int)
  also have "\<dots> = x * 2 ^ K / 2 ^ K" by (simp only: xi)
  also have "\<dots> = x" by simp
  finally show ?thesis by (simp only: x_def)
qed

lemma rnd_numeral [simp]: "numeral n < (2::int) ^ p \<Longrightarrow> rnd p (numeral n) = numeral n"
  using rnd_dyadic [of "numeral n" p 0] by simp

lemma rnd_one [simp]: "0 < p \<Longrightarrow> rnd p 1 = 1"
  using rnd_dyadic [of 1 p 0] by simp

lemma rnd_half [simp]: "numeral n < (2::int) ^ p \<Longrightarrow> rnd p (numeral n / 2) = numeral n / 2"
  using rnd_dyadic [of "numeral n" p 1] by simp

lemma rnd_one_half [simp]: "0 < p \<Longrightarrow> rnd p (1 / 2) = 1 / 2"
  using rnd_dyadic [of 1 p 1] by simp

section \<open>Pitch shifting: lengths, indexes and values\<close>

lemma d_0_001_value: "d_0_001 = 1152921504606847 / 1152921504606846976"
  by code_simp

lemma d_0_001_pos: "0 < d_0_001"
  by (simp add: d_0_001_value)

lemma clamp_ratio_range: "1 / 2 \<le> clamp_ratio ratio \<and> clamp_ratio ratio \<le> 2"
  by (simp add: clamp_ratio_def Let_def)

lemma clamp_ratio_id: "1 / 2 \<le> ratio \<Longrightarrow> ratio \<le> 2 \<Longrightarrow> clamp_ratio ratio = ratio"
  by (simp add: clamp_ratio_def Let_def)

lemma d2u32_floor:
  assumes "0 \<le> x" "x < 2 ^ 32"
  shows "d2u32 x = nat \<lfloor>x\<rfloor>"
proof -
  have "0 \<le> \<lfloor>x\<rfloor>" using assms by simp
  moreover have "\<lfloor>x\<rfloor> < 2 ^ 32" using assms by (simp add: floor_less_iff)
  ultimately show ?thesis using assms by (simp add: d2u32_def d2i_def u32_def)
qed

text \<open>The quotient that gives the new length.\<close>

lemma quotient_bounds:
  assumes "1 / 2 \<le> r" "r \<le> 2" "len < 2 ^ 31"
  shows "0 \<le> ddiv (of_nat len) r" and "ddiv (of_nat len) r \<le> 2 * of_nat len"
    and "ddiv (of_nat len) r < 2 ^ 32"
    and "ddiv (of_nat len) r \<le> (of_nat len / r) * (1 + 1 / 2 ^ 53)"
proof -
  define x where "x = rat_of_nat len / r"
  have r: "0 < r" using assms by simp
  have x0: "0 \<le> x" using r by (simp add: x_def)
  have "rat_of_nat len * 1 \<le> rat_of_nat len * (2 * r)"
    using assms(1) by (intro mult_left_mono) simp_all
  then have "rat_of_nat len \<le> 2 * rat_of_nat len * r" by (simp add: mult_ac)
  then have x2: "x \<le> 2 * rat_of_nat len"
    using r by (simp add: x_def pos_divide_le_eq)
  have l32: "2 * rat_of_nat len < 2 ^ 32"
  proof -
    have "2 * len < 2 ^ 32" using assms(3) by simp
    then have "rat_of_nat (2 * len) < rat_of_nat (2 ^ 32)" by (simp only: of_nat_less_iff)
    then show ?thesis by simp
  qed
  have xs: "\<bar>x\<bar> < 2 ^ 53" using x0 x2 l32 by simp
  have "rat_of_int 0 \<le> rnd 53 x" using x0 xs by (intro rnd_ge_of_int) simp_all
  then show q0: "0 \<le> ddiv (of_nat len) r" by (simp add: ddiv_def x_def)
  have "x \<le> rat_of_int (2 * int len)" using x2 by simp
  then have "rnd 53 x \<le> rat_of_int (2 * int len)" using xs by (rule rnd_le_of_int)
  then show q2: "ddiv (of_nat len) r \<le> 2 * of_nat len" by (simp add: ddiv_def x_def)
  show "ddiv (of_nat len) r < 2 ^ 32" using q2 l32 by simp
  have "\<bar>rnd 53 x - x\<bar> \<le> x / 2 ^ 53" using x0 by (intro rnd_error_bound) simp
  then have "rnd 53 x \<le> x + x / 2 ^ 53" by linarith
  also have "x + x / 2 ^ 53 = x * (1 + 1 / 2 ^ 53)" by (simp only: distrib_left mult_1_right times_divide_eq_right)
  finally show "ddiv (of_nat len) r \<le> (of_nat len / r) * (1 + 1 / 2 ^ 53)"
    by (simp only: ddiv_def x_def)
qed

lemma new_length_floor:
  assumes "1 / 2 \<le> r" "r \<le> 2" "len < 2 ^ 31"
  shows "new_length len r = nat \<lfloor>ddiv (of_nat len) r\<rfloor>"
  unfolding new_length_def
  using quotient_bounds(1,3) [OF assms] by (rule d2u32_floor)

lemma src_pos_bounds:
  assumes r: "1 / 2 \<le> r" "r \<le> 2" and len: "len < 2 ^ 31" and i: "i < new_length len r"
  shows "0 \<le> src_pos r i" and "src_pos r i < of_nat len"
proof -
  define u :: rat where "u = 1 / 2 ^ 53"
  define L where "L = rat_of_nat len"
  define q where "q = ddiv (of_nat len) r"
  define y where "y = rat_of_nat i * r"
  have rp: "0 < r" using r by simp
  have L0: "0 \<le> L" by (simp add: L_def)
  have L31: "L < 2 ^ 31"
  proof -
    have "rat_of_nat len < rat_of_nat (2 ^ 31)" using len by (simp only: of_nat_less_iff)
    then show ?thesis by (simp add: L_def)
  qed
  have nl: "new_length len r = nat \<lfloor>q\<rfloor>"
    unfolding q_def using r len by (rule new_length_floor)
  have "int (i + 1) \<le> \<lfloor>q\<rfloor>" using i nl by simp
  then have "rat_of_int (int (i + 1)) \<le> q" by (simp only: le_floor_iff)
  then have iq: "rat_of_nat i + 1 \<le> q" by simp
  have "q \<le> (L / r) * (1 + 1 / 2 ^ 53)"
    unfolding q_def L_def using r len by (rule quotient_bounds(4))
  then have "rat_of_nat i + 1 \<le> (L / r) * (1 + u)" using iq by (simp only: u_def)
  then have "(rat_of_nat i + 1) * r \<le> ((L / r) * (1 + u)) * r"
    using rp by (intro mult_right_mono) simp_all
  also have "((L / r) * (1 + u)) * r = L * (1 + u)" using rp by simp
  finally have "y + r \<le> L + L * u" by (simp add: y_def algebra_simps)
  moreover have "L * u \<le> 2 ^ 31 * u"
    using L31 by (intro mult_right_mono) (simp_all add: u_def)
  ultimately have yb: "y \<le> L - 1 / 2 + 2 ^ 31 * u" using r(1) by linarith
  have y0: "0 \<le> y" using rp by (simp add: y_def)
  define e22 :: rat where "e22 = 1 / 2 ^ 22"
  have us: "2 ^ 31 * u = e22" by (simp add: u_def e22_def)
  have us': "(2::rat) ^ 31 / 2 ^ 53 = e22" by (simp add: e22_def)
  have e22: "0 < e22" "e22 < 1 / 4" by (simp_all add: e22_def)
  have y31: "y \<le> 2 ^ 31" using yb L31 us e22 by linarith
  have ys: "\<bar>y\<bar> < 2 ^ 53" using y0 y31 by simp
  have "rat_of_int 0 \<le> rnd 53 y" using y0 ys by (intro rnd_ge_of_int) simp_all
  then show "0 \<le> src_pos r i" by (simp add: src_pos_def dmul_def y_def)
  have "\<bar>rnd 53 y - y\<bar> \<le> 2 ^ 31 / 2 ^ 53" using y0 y31 by (intro rnd_error_bound) simp
  then have "\<bar>rnd 53 y - y\<bar> \<le> e22" by (simp only: us')
  then have "rnd 53 y \<le> L - 1 / 2 + 2 * e22" using yb us by linarith
  then have "rnd 53 y < L" using e22 by linarith
  then show "src_pos r i < of_nat len" by (simp add: src_pos_def dmul_def y_def L_def)
qed

lemma src_idx1_floor:
  assumes "1 / 2 \<le> r" "r \<le> 2" "len < 2 ^ 31" "i < new_length len r"
  shows "src_idx1 r i = nat \<lfloor>src_pos r i\<rfloor>" and "src_idx1 r i < len"
proof -
  note b = src_pos_bounds [OF assms]
  have "rat_of_nat len < rat_of_nat (2 ^ 32)" using assms(3) by (simp only: of_nat_less_iff) simp
  then have "src_pos r i < 2 ^ 32" using b(2) by simp
  with b(1) show e: "src_idx1 r i = nat \<lfloor>src_pos r i\<rfloor>"
    unfolding src_idx1_def by (rule d2u32_floor)
  have f1: "\<lfloor>src_pos r i\<rfloor> < int len" using b(2) by (simp add: floor_less_iff)
  have f0: "0 \<le> \<lfloor>src_pos r i\<rfloor>" using b(1) by simp
  show "src_idx1 r i < len" unfolding e using f0 f1 by linarith
qed

lemma src_idx2_less:
  assumes "1 / 2 \<le> r" "r \<le> 2" "len < 2 ^ 31" "i < new_length len r"
  shows "src_idx2 len r i < len"
    and "src_idx2 len r i = (if src_idx1 r i + 1 \<ge> len then len - 1 else src_idx1 r i + 1)"
proof -
  have l: "src_idx1 r i < len" using assms by (rule src_idx1_floor(2))
  have m1: "(src_idx1 r i + 1) mod 2 ^ 32 = src_idx1 r i + 1"
    using l assms(3) by simp
  have h: "len + 2 ^ 32 - 1 = (len - 1) + 2 ^ 32" using l by simp
  have "(len + 2 ^ 32 - 1) mod 2 ^ 32 = ((len - 1) + 2 ^ 32) mod 2 ^ 32" by (simp only: h)
  also have "\<dots> = (len - 1) mod 2 ^ 32" by (rule mod_add_self2)
  also have "\<dots> = len - 1"
  proof -
    have "(2::nat) ^ 31 \<le> 2 ^ 32" by simp
    then have "len - 1 < 2 ^ 32" using assms(3) by linarith
    then show ?thesis by (rule mod_less)
  qed
  finally have m2: "(len + 2 ^ 32 - 1) mod 2 ^ 32 = len - 1" .
  show e: "src_idx2 len r i = (if src_idx1 r i + 1 \<ge> len then len - 1 else src_idx1 r i + 1)"
    by (simp only: src_idx2_def Let_def m1 m2)
  show "src_idx2 len r i < len" using l by (simp add: e)
qed

lemma src_frac_unit:
  assumes "1 / 2 \<le> r" "r \<le> 2" "len < 2 ^ 31" "i < new_length len r"
  shows "0 \<le> src_frac r i \<and> src_frac r i \<le> 1"
proof -
  note b = src_pos_bounds [OF assms]
  have e: "src_idx1 r i = nat \<lfloor>src_pos r i\<rfloor>" using assms by (rule src_idx1_floor(1))
  have "0 \<le> \<lfloor>src_pos r i\<rfloor>" using b(1) by simp
  then have "rat_of_nat (src_idx1 r i) = rat_of_int \<lfloor>src_pos r i\<rfloor>"
    unfolding e by (simp only: of_nat_nat)
  moreover have "rat_of_int \<lfloor>src_pos r i\<rfloor> \<le> src_pos r i"
    "src_pos r i < rat_of_int \<lfloor>src_pos r i\<rfloor> + 1" by linarith+
  ultimately have "0 \<le> src_pos r i - rat_of_nat (src_idx1 r i)"
    "src_pos r i - rat_of_nat (src_idx1 r i) \<le> 1" by simp_all
  then show ?thesis unfolding src_frac_def dsub_def by (intro rnd_unit_interval) simp_all
qed

text \<open>The interpolation of two 16-bit amplitudes with a weight between 0 and 1.\<close>

lemma interp_value:
  fixes a b :: int and f :: rat
  assumes a: "- 32768 \<le> a" "a \<le> 32767" and b: "- 32768 \<le> b" "b \<le> 32767"
    and f: "0 \<le> f" "f \<le> 1"
  defines "v \<equiv> dadd (dmul (of_int a) (dsub 1 f)) (dmul (of_int b) f)"
  shows "\<bar>v - (of_int a * (1 - f) + of_int b * f)\<bar> \<le> 7 * 32768 / 2 ^ 53"
proof -
  define u :: rat where "u = 32768 / 2 ^ 53"
  define A where "A = rat_of_int a"
  define B where "B = rat_of_int b"
  define g where "g = dsub 1 f"
  define p where "p = dmul A g"
  define q where "q = dmul B f"
  have A: "\<bar>A\<bar> \<le> 32768" using a by (simp add: A_def abs_le_iff)
  have B: "\<bar>B\<bar> \<le> 32768" using b by (simp add: B_def abs_le_iff)
  have g01: "0 \<le> g \<and> g \<le> 1"
    unfolding g_def dsub_def using f by (intro rnd_unit_interval) simp_all
  have "\<bar>rnd 53 (1 - f) - (1 - f)\<bar> \<le> 1 / 2 ^ 53"
    using f by (intro rnd_error_bound) simp
  then have ge: "\<bar>g - (1 - f)\<bar> \<le> 1 / 2 ^ 53" by (simp only: g_def dsub_def)
  have Ag: "\<bar>A * g\<bar> \<le> 32768"
  proof -
    have "\<bar>A\<bar> * \<bar>g\<bar> \<le> 32768 * 1" using A g01 by (intro mult_mono) simp_all
    then show ?thesis by (simp add: abs_mult)
  qed
  have Bf: "\<bar>B * f\<bar> \<le> 32768"
  proof -
    have "\<bar>B\<bar> * \<bar>f\<bar> \<le> 32768 * 1" using B f by (intro mult_mono) simp_all
    then show ?thesis by (simp add: abs_mult)
  qed
  have pe: "\<bar>p - A * g\<bar> \<le> u"
    unfolding p_def dmul_def u_def using Ag by (rule rnd_error_bound)
  have qe: "\<bar>q - B * f\<bar> \<le> u"
    unfolding q_def dmul_def u_def using Bf by (rule rnd_error_bound)
  have u1: "u \<le> 32768" by (simp add: u_def)
  have pq: "\<bar>p + q\<bar> \<le> 4 * 32768" using pe qe Ag Bf u1 by linarith
  have "\<bar>rnd 53 (p + q) - (p + q)\<bar> \<le> 4 * 32768 / 2 ^ 53" using pq by (rule rnd_error_bound)
  then have ve: "\<bar>v - (p + q)\<bar> \<le> 4 * u"
    by (simp add: v_def dadd_def p_def q_def g_def A_def B_def u_def)
  have "\<bar>A * (g - (1 - f))\<bar> \<le> 32768 * (1 / 2 ^ 53)"
    unfolding abs_mult using A ge by (intro mult_mono) simp_all
  then have ae: "\<bar>A * g - A * (1 - f)\<bar> \<le> u" by (simp add: u_def algebra_simps)
  have "\<bar>v - (A * (1 - f) + B * f)\<bar> \<le> 7 * u" using ve pe qe ae by linarith
  then show ?thesis by (simp add: A_def B_def u_def)
qed

lemma convex_range:
  fixes a b :: int and f :: rat
  assumes "lo \<le> a" "a \<le> hi" "lo \<le> b" "b \<le> hi" "0 \<le> f" "f \<le> 1"
  shows "of_int lo \<le> of_int a * (1 - f) + of_int b * f"
    and "of_int a * (1 - f) + of_int b * f \<le> of_int hi"
proof -
  have g: "0 \<le> 1 - f" using assms by simp
  have "rat_of_int a * (1 - f) \<le> rat_of_int hi * (1 - f)"
    using assms g by (intro mult_right_mono) simp_all
  moreover have "rat_of_int b * f \<le> rat_of_int hi * f"
    using assms by (intro mult_right_mono) simp_all
  ultimately have "rat_of_int a * (1 - f) + rat_of_int b * f \<le> rat_of_int hi * (1 - f) + rat_of_int hi * f"
    by linarith
  then show "of_int a * (1 - f) + of_int b * f \<le> rat_of_int hi" by (simp add: algebra_simps)
  have "rat_of_int lo * (1 - f) \<le> rat_of_int a * (1 - f)"
    using assms g by (intro mult_right_mono) simp_all
  moreover have "rat_of_int lo * f \<le> rat_of_int b * f"
    using assms by (intro mult_right_mono) simp_all
  ultimately have "rat_of_int lo * (1 - f) + rat_of_int lo * f \<le> rat_of_int a * (1 - f) + rat_of_int b * f"
    by linarith
  then show "rat_of_int lo \<le> of_int a * (1 - f) + of_int b * f" by (simp add: algebra_simps)
qed

lemma d2i_between:
  assumes "lo \<le> 0" "0 \<le> hi" "rat_of_int lo - 1 < x" "x < rat_of_int hi + 1"
  shows "lo \<le> d2i x \<and> d2i x \<le> hi"
proof (cases "0 \<le> x")
  case True
  then have "0 \<le> \<lfloor>x\<rfloor>" by simp
  moreover have "\<lfloor>x\<rfloor> < hi + 1"
  proof -
    have "x < rat_of_int (hi + 1)" using assms(4) by simp
    then show ?thesis by (simp only: floor_less_iff)
  qed
  moreover have "d2i x = \<lfloor>x\<rfloor>" using True by (simp add: d2i_def)
  ultimately show ?thesis using assms(1) by linarith
next
  case False
  then have "\<lceil>x\<rceil> \<le> 0" by (simp add: ceiling_le_iff)
  moreover have "lo - 1 < \<lceil>x\<rceil>"
  proof -
    have "rat_of_int (lo - 1) < x" using assms(3) by simp
    then show ?thesis by (simp only: less_ceiling_iff)
  qed
  moreover have "d2i x = \<lceil>x\<rceil>" using False by (simp add: d2i_def)
  ultimately show ?thesis using assms(2) by linarith
qed

lemma sint16_range: "- 32768 \<le> sint (w :: Sint16) \<and> sint w \<le> 32767"
  using sint_ge [of w] sint_lt [of w] by simp

lemma sint16_of_int:
  assumes "- 32768 \<le> k" "k \<le> 32767"
  shows "sint (word_of_int k :: Sint16) = k"
proof -
  have "signed_take_bit 15 k = k"
    using assms by (intro signed_take_bit_int_eq_self) simp_all
  then show ?thesis by (simp add: sint_sbintrunc')
qed

lemma d2i_near:
  assumes "rat_of_int lo - 1 < x" "x < rat_of_int hi + 1"
  shows "lo - 1 \<le> d2i x \<and> d2i x \<le> hi + 1"
proof -
  have "rat_of_int (lo - 2) + 1 \<le> x" using assms(1) by simp
  then have f1: "lo - 2 < \<lfloor>x\<rfloor>" by (simp only: less_floor_iff)
  have "x < rat_of_int (hi + 1)" using assms(2) by simp
  then have f2: "\<lfloor>x\<rfloor> < hi + 1" by (simp only: floor_less_iff)
  have "rat_of_int (lo - 1) < x" using assms(1) by simp
  then have c1: "lo - 1 < \<lceil>x\<rceil>" by (simp only: less_ceiling_iff)
  have "x \<le> rat_of_int (hi + 2) - 1" using assms(2) by simp
  then have c2: "\<lceil>x\<rceil> < hi + 2" by (simp only: ceiling_less_iff)
  have "d2i x = \<lfloor>x\<rfloor> \<or> d2i x = \<lceil>x\<rceil>" by (simp add: d2i_def)
  then show ?thesis using f1 f2 c1 c2 by linarith
qed

lemma pitch_shift_sample_slow:
  assumes "\<not> \<bar>dsub ratio 1\<bar> < d_0_001"
  shows "pitch_shift_sample original ratio =
           map (\<lambda>i. d2s16 (interp original (clamp_ratio ratio) i))
             [0..<new_length (length original) (clamp_ratio ratio)]"
  using assms by (simp add: pitch_shift_sample_def Let_def)

lemma quotient_floor_near:
  assumes "1 / 2 \<le> r" "r \<le> 2" "len < 2 ^ 31"
  shows "\<lfloor>rat_of_nat len / r\<rfloor> \<le> \<lfloor>ddiv (of_nat len) r\<rfloor>"
    and "\<lfloor>ddiv (of_nat len) r\<rfloor> \<le> \<lfloor>rat_of_nat len / r\<rfloor> + 1"
proof -
  define x where "x = rat_of_nat len / r"
  have x0: "0 \<le> x" using assms by (simp add: x_def)
  have q: "ddiv (of_nat len) r = rnd 53 x" by (simp add: ddiv_def x_def)
  have xs: "\<bar>x\<bar> < 2 ^ 53"
  proof -
    have "rat_of_nat len * 1 \<le> rat_of_nat len * (2 * r)"
      using assms(1) by (intro mult_left_mono) simp_all
    then have "x \<le> 2 * rat_of_nat len"
      using assms(1) by (simp add: x_def pos_divide_le_eq mult_ac)
    moreover have "rat_of_nat len < rat_of_nat (2 ^ 31)"
      using assms(3) by (simp only: of_nat_less_iff)
    ultimately show ?thesis using x0 by simp
  qed
  have "rat_of_int \<lfloor>x\<rfloor> \<le> x" by linarith
  then have "rat_of_int \<lfloor>x\<rfloor> \<le> rnd 53 x" using xs by (rule rnd_ge_of_int)
  then show "\<lfloor>rat_of_nat len / r\<rfloor> \<le> \<lfloor>ddiv (of_nat len) r\<rfloor>"
    by (simp add: q x_def [symmetric] le_floor_iff)
  have "x \<le> rat_of_int (\<lfloor>x\<rfloor> + 1)" by simp linarith
  then have "rnd 53 x \<le> rat_of_int (\<lfloor>x\<rfloor> + 1)" using xs by (rule rnd_le_of_int)
  then have "\<lfloor>rnd 53 x\<rfloor> \<le> \<lfloor>x\<rfloor> + 1" by (simp add: floor_le_iff)
  then show "\<lfloor>ddiv (of_nat len) r\<rfloor> \<le> \<lfloor>rat_of_nat len / r\<rfloor> + 1"
    by (simp add: q x_def [symmetric])
qed

lemma slow_path_3_2: "\<not> \<bar>dsub (3 / 2) 1\<bar> < d_0_001"
  by (simp add: dsub_def d_0_001_value)

lemma ramp_3_2: "pitch_shift_sample ramp (3 / 2) = [100, 250]"
proof -
  have n: "new_length (length ramp) (3 / 2) = 2"
    by (simp add: ramp_def new_length_def ddiv_def d2u32_def d2i_def u32_def)
  have c: "clamp_ratio (3 / 2) = 3 / 2" by (simp add: clamp_ratio_def)
  have u: "[0..<2] = [0, Suc 0]" by (simp add: upt_conv_Cons)
  have p0: "src_pos (3 / 2) 0 = 0" "src_pos (3 / 2) (Suc 0) = 3 / 2"
    by (simp_all add: src_pos_def dmul_def)
  have fl: "\<lfloor>3 / 2 :: rat\<rfloor> = 1" by (rule floor_unique) simp_all
  have i0: "src_idx1 (3 / 2) 0 = 0" "src_idx1 (3 / 2) (Suc 0) = 1"
    by (simp_all add: src_idx1_def p0 d2u32_def d2i_def u32_def fl)
  have j0: "src_idx2 (length ramp) (3 / 2) 0 = 1" "src_idx2 (length ramp) (3 / 2) (Suc 0) = 2"
    by (simp_all add: src_idx2_def i0 ramp_def)
  have f0: "src_frac (3 / 2) 0 = 0" "src_frac (3 / 2) (Suc 0) = 1 / 2"
    by (simp_all add: src_frac_def p0 i0 dsub_def)
  have v: "interp ramp (3 / 2) 0 = 100" "interp ramp (3 / 2) (Suc 0) = 250"
    unfolding interp_def i0 j0 f0
    by (simp_all add: ramp_def dadd_def dmul_def dsub_def)
  have "pitch_shift_sample ramp (3 / 2) = map (\<lambda>i. d2s16 (interp ramp (3 / 2) i)) [0..<2]"
    by (simp only: pitch_shift_sample_slow [OF slow_path_3_2] c n)
  also have "\<dots> = [d2s16 100, d2s16 250]" by (simp add: u v)
  also have "\<dots> = [100, 250]" by (simp add: d2s16_def d2i_def)
  finally show ?thesis .
qed

lemma fast_path_2049: "\<bar>dsub (2049 / 2048) 1\<bar> < d_0_001"
proof -
  have "rnd 53 (rat_of_int 1 / 2 ^ 11) = rat_of_int 1 / 2 ^ 11" by (rule rnd_dyadic) simp
  then have "dsub (2049 / 2048) 1 = 1 / 2048" by (simp add: dsub_def)
  then show ?thesis by (simp add: d_0_001_value)
qed

text \<open>
  Claim C8. Take a source buffer that a \<^verbatim>\<open>Mix_Chunk\<close> can hold (fewer than \<open>2\<^sup>3\<^sup>1\<close> samples,
  its length in bytes being a \<^verbatim>\<open>Uint32\<close>), any ratio, and an index \<open>i\<close> of the output. On the
  copying path the output sample is the source sample. On the interpolating path both
  indexes read, \<open>idx1\<close> and the clamped \<open>idx2\<close>, are inside the source; the weight \<open>frac\<close>
  lies between 0 and 1; the value computed in double precision differs from the convex
  combination \<open>a * (1 - frac) + b * frac\<close> of the two samples read by less than \<open>2\<^sup>-\<^sup>3\<^sup>5\<close>;
  truncated, it lies in \<open>[-32768, 32767]\<close>, so the cast to \<^verbatim>\<open>Sint16\<close> keeps it and nothing
  has to saturate; and it is at most one away from the interval between the two samples.
\<close>

theorem pitch_shift_sample_in_bounds:
  assumes "length original < 2 ^ 31"
    and "i < length (pitch_shift_sample original ratio)"
  shows "if \<bar>dsub ratio 1\<bar> < d_0_001
         then pitch_shift_sample original ratio ! i = original ! i \<and> i < length original
         else (let r = clamp_ratio ratio; len = length original;
                   idx1 = src_idx1 r i; idx2 = src_idx2 len r i; frac = src_frac r i;
                   a = sint (original ! idx1); b = sint (original ! idx2);
                   out = sint (pitch_shift_sample original ratio ! i)
               in idx1 < len \<and> idx2 < len
                  \<and> idx2 = (if idx1 + 1 \<ge> len then len - 1 else idx1 + 1)
                  \<and> 0 \<le> frac \<and> frac \<le> 1
                  \<and> \<bar>interp original r i - (of_int a * (1 - frac) + of_int b * frac)\<bar>
                        \<le> 7 * 32768 / 2 ^ 53
                  \<and> out = d2i (interp original r i)
                  \<and> - 32768 \<le> d2i (interp original r i) \<and> d2i (interp original r i) \<le> 32767
                  \<and> min a b - 1 \<le> out \<and> out \<le> max a b + 1)"
proof (cases "\<bar>dsub ratio 1\<bar> < d_0_001")
  case True
  then show ?thesis using assms(2) by (simp add: pitch_shift_sample_def)
next
  case False
  define r where "r = clamp_ratio ratio"
  define len where "len = length original"
  define f where "f = src_frac r i"
  define a where "a = sint (original ! src_idx1 r i)"
  define b where "b = sint (original ! src_idx2 len r i)"
  define v where "v = interp original r i"
  define c where "c = rat_of_int a * (1 - f) + rat_of_int b * f"
  have rr: "1 / 2 \<le> r" "r \<le> 2" using clamp_ratio_range [of ratio] by (simp_all add: r_def)
  have ll: "len < 2 ^ 31" using assms(1) by (simp add: len_def)
  have ps: "pitch_shift_sample original ratio =
              map (\<lambda>i. d2s16 (interp original r i)) [0..<new_length len r]"
    unfolding r_def len_def using False by (rule pitch_shift_sample_slow)
  have ii: "i < new_length len r" using assms(2) by (simp add: ps)
  have i1: "src_idx1 r i < len" using rr ll ii by (rule src_idx1_floor(2))
  have i2: "src_idx2 len r i < len"
    "src_idx2 len r i = (if src_idx1 r i + 1 \<ge> len then len - 1 else src_idx1 r i + 1)"
    using rr ll ii by (rule src_idx2_less)+
  have fr: "0 \<le> f" "f \<le> 1" using src_frac_unit [OF rr ll ii] by (simp_all add: f_def)
  have ab: "- 32768 \<le> a" "a \<le> 32767" "- 32768 \<le> b" "b \<le> 32767"
    using sint16_range by (simp_all add: a_def b_def)
  have vdef: "v = dadd (dmul (of_int a) (dsub 1 f)) (dmul (of_int b) f)"
    by (simp add: v_def interp_def a_def b_def f_def len_def)
  define K :: rat where "K = 7 * 32768 / 2 ^ 53"
  have ve: "\<bar>v - c\<bar> \<le> K"
    unfolding vdef c_def K_def using ab fr by (rule interp_value)
  have small: "K < 1" by (simp add: K_def)
  have cr: "- 32768 \<le> c" "c \<le> 32767"
    using convex_range [of "- 32768" a 32767 b f] ab fr by (simp_all add: c_def)
  have cm: "rat_of_int (min a b) \<le> c" "c \<le> rat_of_int (max a b)"
    using convex_range [of "min a b" a "max a b" b f] fr by (simp_all add: c_def)
  have vr: "- 32768 - 1 < v" "v < 32767 + 1"
    using ve small cr by linarith+
  have dr: "- 32768 \<le> d2i v \<and> d2i v \<le> 32767"
    using vr by (intro d2i_between) simp_all
  have vm: "rat_of_int (min a b) - 1 < v" "v < rat_of_int (max a b) + 1"
    using ve small cm by linarith+
  have dm: "min a b - 1 \<le> d2i v \<and> d2i v \<le> max a b + 1"
    using vm by (rule d2i_near)
  have out: "sint (pitch_shift_sample original ratio ! i) = d2i v"
    using ii dr by (simp add: ps d2s16_def sint16_of_int v_def)
  have all: "src_idx1 r i < len \<and> src_idx2 len r i < len
      \<and> src_idx2 len r i = (if src_idx1 r i + 1 \<ge> len then len - 1 else src_idx1 r i + 1)
      \<and> 0 \<le> f \<and> f \<le> 1
      \<and> \<bar>v - c\<bar> \<le> 7 * 32768 / 2 ^ 53
      \<and> sint (pitch_shift_sample original ratio ! i) = d2i v
      \<and> - 32768 \<le> d2i v \<and> d2i v \<le> 32767
      \<and> min a b - 1 \<le> sint (pitch_shift_sample original ratio ! i)
      \<and> sint (pitch_shift_sample original ratio ! i) \<le> max a b + 1"
    using i1 i2 fr ve [unfolded K_def] dr dm [folded out] out by blast
  show ?thesis
    apply (simp only: False if_False Let_def)
    apply (rule all [unfolded c_def v_def a_def b_def f_def len_def r_def])
    done
qed

theorem pitch_shift_sample_in_bounds_witness:
  "length ramp < 2 ^ 31 \<and> 1 < length (pitch_shift_sample ramp (3 / 2))
   \<and> src_idx1 (clamp_ratio (3 / 2)) 1 < length ramp
   \<and> src_idx2 (length ramp) (clamp_ratio (3 / 2)) 1 < length ramp
   \<and> sint (pitch_shift_sample ramp (3 / 2) ! 1) = d2i (interp ramp (clamp_ratio (3 / 2)) 1)
   \<and> sint (pitch_shift_sample ramp (3 / 2) ! 1) = 250"
proof -
  have l: "length ramp < 2 ^ 31" by (simp add: ramp_def)
  have i: "1 < length (pitch_shift_sample ramp (3 / 2))" by (simp add: ramp_3_2)
  have v: "sint (pitch_shift_sample ramp (3 / 2) ! 1) = 250" by (simp add: ramp_3_2)
  show ?thesis
    using pitch_shift_sample_in_bounds [OF l i] slow_path_3_2 l i v
    by (simp add: Let_def)
qed

text \<open>
  Claim C9. With the ratio exactly 1.0 the result is the source buffer, sample for sample.
\<close>

theorem pitch_shift_sample_identity: "pitch_shift_sample original 1 = original"
  by (simp add: pitch_shift_sample_def dsub_def d_0_001_pos)

text \<open>
  Claim C3 says that for every ratio \<open>r\<close> in \<open>[0.5, 2.0]\<close> and every non-empty source the
  output has \<open>floor(len / r)\<close> samples. That fails for the ratios the code treats as 1:
  for \<open>r = 2049/2048\<close>, where \<open>fabs(r - 1.0) < 0.001\<close>, a source of 4096 samples is copied,
  and \<open>floor(4096 / r) = 4094\<close>.
\<close>

theorem pitch_shift_sample_length_counterexample:
  "(1 / 2 \<le> (2049 / 2048 :: rat) \<and> (2049 / 2048 :: rat) \<le> 2)
   \<and> replicate 4096 (0 :: Sint16) \<noteq> []
   \<and> length (pitch_shift_sample (replicate 4096 0) (2049 / 2048)) = 4096
   \<and> \<lfloor>rat_of_nat (length (replicate 4096 (0 :: Sint16))) / (2049 / 2048)\<rfloor> = 4094
   \<and> \<lfloor>ddiv (rat_of_nat (length (replicate 4096 (0 :: Sint16)))) (2049 / 2048)\<rfloor> \<le> 4095
   \<and> int (length (pitch_shift_sample (replicate 4096 0) (2049 / 2048)))
        \<noteq> \<lfloor>rat_of_nat (length (replicate 4096 (0 :: Sint16))) / (2049 / 2048)\<rfloor>"
proof -
  have e: "\<lfloor>rat_of_nat 4096 / (2049 / 2048)\<rfloor> = 4094"
    by (rule floor_unique) simp_all
  have "\<lfloor>ddiv (rat_of_nat 4096) (2049 / 2048)\<rfloor> \<le> \<lfloor>rat_of_nat 4096 / (2049 / 2048)\<rfloor> + 1"
    by (rule quotient_floor_near) simp_all
  then have q: "\<lfloor>ddiv (rat_of_nat 4096) (2049 / 2048)\<rfloor> \<le> 4095" by (simp only: e)
  show ?thesis using fast_path_2049 e q by (simp add: pitch_shift_sample_def)
qed

text \<open>
  Claim C3, amended. For every ratio \<open>r\<close> in \<open>[0.5, 2.0]\<close> and every source buffer of fewer
  than \<open>2\<^sup>3\<^sup>1\<close> samples: when \<^verbatim>\<open>fabs(r - 1.0) < 0.001\<close> holds as the code computes it, the output
  has the length of the source; otherwise it has \<open>floor(q)\<close> samples, \<open>q\<close> being the quotient
  \<open>len / r\<close> in double precision. That number is \<open>floor(len / r)\<close> of the exact quotient, or
  one more when the double quotient rounds up to the next integer.
\<close>

theorem pitch_shift_sample_length:
  assumes "1 / 2 \<le> r" "r \<le> 2" "length original < 2 ^ 31"
  shows "length (pitch_shift_sample original r) =
           (if \<bar>dsub r 1\<bar> < d_0_001 then length original
            else nat \<lfloor>ddiv (of_nat (length original)) r\<rfloor>)
         \<and> \<lfloor>rat_of_nat (length original) / r\<rfloor> \<le> \<lfloor>ddiv (of_nat (length original)) r\<rfloor>
         \<and> \<lfloor>ddiv (of_nat (length original)) r\<rfloor> \<le> \<lfloor>rat_of_nat (length original) / r\<rfloor> + 1"
proof (intro conjI)
  show "length (pitch_shift_sample original r) =
           (if \<bar>dsub r 1\<bar> < d_0_001 then length original
            else nat \<lfloor>ddiv (of_nat (length original)) r\<rfloor>)"
    using new_length_floor [OF assms] clamp_ratio_id [OF assms(1,2)]
    by (simp add: pitch_shift_sample_def Let_def)
qed (rule quotient_floor_near [OF assms])+

theorem pitch_shift_sample_length_witness:
  "(1 / 2 \<le> (3 / 2 :: rat) \<and> (3 / 2 :: rat) \<le> 2) \<and> length ramp < 2 ^ 31
   \<and> length (pitch_shift_sample ramp (3 / 2)) = 2
   \<and> length (pitch_shift_sample ramp (2049 / 2048)) = 3"
proof -
  have l: "length ramp < 2 ^ 31" by (simp add: ramp_def)
  have n: "length ramp = 3" by (simp add: ramp_def)
  have q: "nat \<lfloor>ddiv (rat_of_nat (length ramp)) (3 / 2)\<rfloor> = 2"
    by (simp add: n ddiv_def)
  have a: "length (pitch_shift_sample ramp (3 / 2)) = 2"
    using pitch_shift_sample_length [of "3 / 2" ramp] l slow_path_3_2 q by simp
  have b: "length (pitch_shift_sample ramp (2049 / 2048)) = 3"
    using pitch_shift_sample_length [of "2049 / 2048" ramp] l fast_path_2049 n by simp
  show ?thesis using l a b by simp
qed

text \<open>
  The second case does occur: \<^verbatim>\<open>1.8\<close> as a double is a little more than \<open>9/5\<close>, and nine
  samples at that ratio give five, as in C, while the exact quotient is below 5.
\<close>

lemma double_1_8: "rnd 53 (9 / 5) = 8106479329266893 / 4503599627370496"
  by code_simp

lemma nine_samples_at_1_8:
  "\<lfloor>rat_of_nat 9 / rnd 53 (9 / 5)\<rfloor> = 4 \<and> ddiv (rat_of_nat 9) (rnd 53 (9 / 5)) = 5"
proof -
  have a: "\<lfloor>rat_of_nat 9 / (8106479329266893 / 4503599627370496)\<rfloor> = 4"
    by (rule floor_unique) simp_all
  have b: "rnd 53 (9 / (8106479329266893 / 4503599627370496)) = 5"
    by code_simp
  show ?thesis using a b by (simp add: ddiv_def double_1_8)
qed

section \<open>Panning\<close>

lemma f_0_7_value: "f_0_7 = 11744051 / 16777216"
  by code_simp

lemma f_0_3_value: "f_0_3 = 10066330 / 33554432"
  by code_simp

lemma right_gain: "fsub 1 f_0_3 = f_0_7"
proof -
  have "rnd 24 (rat_of_int 11744051 / 2 ^ 24) = rat_of_int 11744051 / 2 ^ 24"
    by (rule rnd_dyadic) simp
  then show ?thesis by (simp add: fsub_def f_0_3_value f_0_7_value)
qed

lemma u32n_id: "n < 2 ^ 32 \<Longrightarrow> u32n n = n"
  by (simp add: u32n_def)

lemma pan_mix_step_eq:
  assumes "i * 2 + 1 < 2 ^ 32"
  shows "pan_mix_step ch voice i rb =
           (let j = (if ch < 4 then i * 2 else i * 2 + 1)
            in rb[j := word_of_int (clamp16 (sint (rb ! j) + sint (scaled (voice ! i))))])"
proof -
  have a: "u32n (i * 2) = i * 2" "u32n (i * 2 + 1) = i * 2 + 1"
    using assms by (simp_all add: u32n_id)
  show ?thesis
    by (simp only: pan_mix_step_def Let_def a scaled_def right_gain if_True if_False split: if_split)
       (simp add: right_gain)
qed

lemma length_pan_mix_step [simp]: "length (pan_mix_step ch voice i rb) = length rb"
  by (simp add: pan_mix_step_def Let_def)

lemma pan_mix_prefix:
  assumes "2 * n \<le> length rb" "length rb \<le> 2 ^ 32"
  shows "length (fold (pan_mix_step ch voice) [0..<n] rb) = length rb \<and>
         (\<forall>j < length rb. fold (pan_mix_step ch voice) [0..<n] rb ! j =
            (if j < 2 * n \<and> pan_side ch j
             then word_of_int (clamp16 (sint (rb ! j) + sint (scaled (voice ! (j div 2)))))
             else rb ! j))"
  using assms
proof (induction n)
  case 0
  then show ?case by simp
next
  case (Suc n)
  let ?rb = "fold (pan_mix_step ch voice) [0..<n] rb"
  let ?j = "if ch < 4 then n * 2 else n * 2 + 1"
  have IH: "length ?rb = length rb"
    "\<And>j. j < length rb \<Longrightarrow> ?rb ! j =
            (if j < 2 * n \<and> pan_side ch j
             then word_of_int (clamp16 (sint (rb ! j) + sint (scaled (voice ! (j div 2)))))
             else rb ! j)"
    using Suc by simp_all
  have b: "n * 2 + 1 < 2 ^ 32" using Suc.prems by simp
  have jl: "?j < length rb" using Suc.prems by simp
  have jv: "?rb ! ?j = rb ! ?j" using IH(2) [OF jl] by simp
  have st: "fold (pan_mix_step ch voice) [0..<Suc n] rb =
              ?rb[?j := word_of_int (clamp16 (sint (rb ! ?j) + sint (scaled (voice ! n))))]"
    using pan_mix_step_eq [OF b, of ch voice ?rb] jv by (simp add: Let_def)
  have jd: "?j div 2 = n" by simp
  have js: "pan_side ch ?j" by (simp add: pan_side_def)
  have other: "\<And>j. j < 2 * Suc n \<Longrightarrow> pan_side ch j \<Longrightarrow> j \<noteq> ?j \<Longrightarrow> j < 2 * n"
    by (cases "ch < 4"; simp add: pan_side_def; presburger)
  show ?case
  proof (intro conjI allI impI)
    show "length (fold (pan_mix_step ch voice) [0..<Suc n] rb) = length rb"
      by (simp only: st length_list_update IH(1))
  next
    fix j assume j: "j < length rb"
    show "fold (pan_mix_step ch voice) [0..<Suc n] rb ! j =
            (if j < 2 * Suc n \<and> pan_side ch j
             then word_of_int (clamp16 (sint (rb ! j) + sint (scaled (voice ! (j div 2)))))
             else rb ! j)"
    proof (cases "j = ?j")
      case True
      have "fold (pan_mix_step ch voice) [0..<Suc n] rb ! j =
              word_of_int (clamp16 (sint (rb ! ?j) + sint (scaled (voice ! n))))"
        unfolding st True using jl by (simp only: nth_list_update_eq IH(1))
      moreover have "j < 2 * Suc n \<and> pan_side ch j" using True js by simp
      ultimately show ?thesis using True jd by simp
    next
      case False
      have "fold (pan_mix_step ch voice) [0..<Suc n] rb ! j = ?rb ! j"
        unfolding st using False by (simp only: nth_list_update_neq not_sym)
      moreover have "(j < 2 * Suc n \<and> pan_side ch j) = (j < 2 * n \<and> pan_side ch j)"
        using other [of j] False by auto
      ultimately show ?thesis using IH(2) [OF j] by simp
    qed
  qed
qed

lemma d2i_error: "\<bar>rat_of_int (d2i x) - x\<bar> < 1"
proof (cases "0 \<le> x")
  case True
  have "rat_of_int \<lfloor>x\<rfloor> \<le> x" "x < rat_of_int \<lfloor>x\<rfloor> + 1" by linarith+
  then show ?thesis using True by (simp add: d2i_def abs_less_iff)
next
  case False
  have "rat_of_int \<lceil>x\<rceil> - 1 < x" "x \<le> rat_of_int \<lceil>x\<rceil>" by linarith+
  then show ?thesis using False by (simp add: d2i_def abs_less_iff)
qed

lemma scaled_value:
  "sint (scaled smp) = d2i (fmul (of_int (sint smp)) f_0_7)"
  "\<bar>10 * sint (scaled smp) - 7 * sint smp\<bar> \<le> 10"
proof -
  define S where "S = rat_of_int (sint smp)"
  define c :: rat where "c = 11744051 / 16777216"
  define x where "x = S * c"
  define v where "v = rnd 24 x"
  define t where "t = d2i v"
  have "rat_of_int (- 32768) \<le> S" "S \<le> rat_of_int 32767"
    unfolding S_def using sint16_range [of smp] by (simp_all only: of_int_le_iff)
  then have Sr: "\<bar>S\<bar> \<le> 32768" by simp
  have c01: "0 \<le> c" "c \<le> 1" by (simp_all add: c_def)
  have xa: "\<bar>x\<bar> \<le> 32768"
  proof -
    have "\<bar>S\<bar> * \<bar>c\<bar> \<le> 32768 * 1" using Sr c01 by (intro mult_mono) simp_all
    then show ?thesis by (simp add: x_def abs_mult)
  qed
  have "\<bar>v - x\<bar> \<le> 32768 / 2 ^ 24" unfolding v_def using xa by (rule rnd_error_bound)
  then have e1: "\<bar>v - x\<bar> \<le> 1 / 512" by simp
  have "x - 7 / 10 * S = S * (- (1 / 83886080))" by (simp add: x_def c_def algebra_simps)
  then have "\<bar>x - 7 / 10 * S\<bar> = \<bar>S\<bar> * (1 / 83886080)" by (simp add: abs_mult)
  also have "\<dots> \<le> 32768 * (1 / 83886080)" using Sr by (intro mult_right_mono) simp_all
  finally have e2: "\<bar>x - 7 / 10 * S\<bar> \<le> 1 / 2560" by simp
  have e3: "\<bar>rat_of_int t - v\<bar> < 1" unfolding t_def by (rule d2i_error)
  have near: "\<bar>rat_of_int t - 7 / 10 * S\<bar> < 1 + 1 / 256" using e1 e2 e3 by linarith
  have "\<bar>7 / 10 * S\<bar> \<le> 7 / 10 * 32768" using Sr by (simp add: abs_mult)
  then have "\<bar>rat_of_int t\<bar> < 32767" using near by linarith
  then have "\<bar>t\<bar> < 32767" by (simp add: abs_less_iff)
  then have tr: "- 32768 \<le> t" "t \<le> 32767" by simp_all
  have fm: "fmul (of_int (sint smp)) f_0_7 = v"
    by (simp add: fmul_def f_0_7_value v_def x_def S_def c_def)
  have "scaled smp = word_of_int t" by (simp only: scaled_def d2s16_def fm t_def)
  then have "sint (scaled smp) = t" using tr by (simp only: sint16_of_int)
  then show "sint (scaled smp) = d2i (fmul (of_int (sint smp)) f_0_7)"
    by (simp only: fm t_def)
  have "\<bar>10 * rat_of_int t - 7 * S\<bar> < 11" using near by linarith
  then have "\<bar>rat_of_int (10 * t - 7 * sint smp)\<bar> < rat_of_int 11" by (simp add: S_def)
  then have "\<bar>10 * t - 7 * sint smp\<bar> < 11"
    by (simp only: of_int_abs [symmetric] of_int_less_iff)
  then show "\<bar>10 * sint (scaled smp) - 7 * sint smp\<bar> \<le> 10"
    using \<open>sint (scaled smp) = t\<close> by simp
qed

lemma clamp16_sint [simp]: "clamp16 (sint (w :: Sint16)) = sint w"
  using sint16_range [of w] by (simp add: clamp16_def Let_def)

lemma pan_mix_nth:
  assumes "2 * length voice \<le> length rb" "length rb \<le> 2 ^ 32" "j < length rb"
  shows "pan_mix ch voice rb ! j =
            (if j < 2 * length voice \<and> pan_side ch j
             then word_of_int (clamp16 (sint (rb ! j) + sint (scaled (voice ! (j div 2)))))
             else rb ! j)"
  using pan_mix_prefix [OF assms(1,2), of ch voice] assms(3) by (simp add: pan_mix_def)

lemma length_fold_pan_mix_step: "length (fold (pan_mix_step ch voice) xs rb) = length rb"
  by (induction xs arbitrary: rb) simp_all

lemma length_pan_mix [simp]: "length (pan_mix ch voice rb) = length rb"
  by (simp add: pan_mix_def length_fold_pan_mix_step)

lemma scaled_1000: "scaled 1000 = 700"
proof -
  have r: "rnd 24 (1468006375 / 2097152) = 700" by code_simp
  have "fmul (rat_of_int (sint (1000 :: Sint16))) f_0_7 = 700"
    by (simp add: fmul_def f_0_7_value r)
  then have "scaled 1000 = d2s16 700" by (simp only: scaled_def)
  then show ?thesis by (simp add: d2s16_def d2i_def)
qed

text \<open>
  Claim C1 says that a channel below 4 gives 0.7 of its amplitude to the left output and
  0.3 to the right, and a channel from 4 on 0.3 to the left and 0.7 to the right. The
  code writes one side only: a sample of amplitude 1000 on channel 0 puts 700 into the
  left slot and leaves the right slot at 0, and on channel 4 it puts 700 into the right
  slot and leaves the left one at 0.
\<close>

theorem pan_mix_counterexample:
  "pan_mix 0 [1000] [0, 0] = [700, 0] \<and> sint (pan_mix 0 [1000] [0, 0] ! 1) = 0
   \<and> sint (pan_mix 0 [1000] [0, 0] ! 1) \<noteq> 300
   \<and> pan_mix 4 [1000] [0, 0] = [0, 700] \<and> sint (pan_mix 4 [1000] [0, 0] ! 0) = 0
   \<and> sint (pan_mix 4 [1000] [0, 0] ! 0) \<noteq> 300"
proof -
  have s: "pan_mix_step ch [1000] 0 [0, 0] =
             (let j = (if ch < 4 then 0 else 1)
              in [0, 0][j := word_of_int (clamp16 (sint ([0, 0 :: Sint16] ! j) + sint (scaled 1000)))])"
    for ch
    using pan_mix_step_eq [of 0 ch "[1000]" "[0, 0]"] by simp
  have a: "pan_mix 0 [1000] [0, 0] = [700, 0]"
    by (simp add: pan_mix_def s scaled_1000 clamp16_def)
  have b: "pan_mix 4 [1000] [0, 0] = [0, 700]"
    by (simp add: pan_mix_def s scaled_1000 clamp16_def)
  show ?thesis by (simp add: a b)
qed

text \<open>
  Claim C1, amended. For every channel \<open>ch\<close> and every frame \<open>i\<close> of its mono voice, the
  mixer adds to the row buffer, with saturation to 16 bits, the amount \<open>scaled\<close> of the
  sample: the sample times \<^verbatim>\<open>0.7f\<close>, truncated, which is within 1 of 0.7 of the amplitude.
  A channel below 4 adds it to the left slot of the frame and leaves the right slot as it
  was; a channel from 4 on adds it to the right slot and leaves the left slot as it was.
  Slots past the end of the voice are not touched. In the row buffer the code allocates,
  which is all zero, the written slot becomes \<open>scaled\<close> of the sample and the other stays 0.
\<close>

theorem pan_mix_one_side:
  assumes "2 * length voice \<le> length row_buffer" "length row_buffer \<le> 2 ^ 32"
    and "i < length voice"
  shows "length (pan_mix ch voice row_buffer) = length row_buffer
     \<and> (ch < 4 \<longrightarrow>
          pan_mix ch voice row_buffer ! (2 * i)
            = word_of_int (clamp16 (sint (row_buffer ! (2 * i)) + sint (scaled (voice ! i))))
          \<and> pan_mix ch voice row_buffer ! (2 * i + 1) = row_buffer ! (2 * i + 1))
     \<and> (\<not> ch < 4 \<longrightarrow>
          pan_mix ch voice row_buffer ! (2 * i + 1)
            = word_of_int (clamp16 (sint (row_buffer ! (2 * i + 1)) + sint (scaled (voice ! i))))
          \<and> pan_mix ch voice row_buffer ! (2 * i) = row_buffer ! (2 * i))
     \<and> (\<forall>j. 2 * length voice \<le> j \<and> j < length row_buffer \<longrightarrow>
            pan_mix ch voice row_buffer ! j = row_buffer ! j)
     \<and> sint (scaled (voice ! i)) = d2i (fmul (of_int (sint (voice ! i))) f_0_7)
     \<and> \<bar>10 * sint (scaled (voice ! i)) - 7 * sint (voice ! i)\<bar> \<le> 10
     \<and> (row_buffer ! (2 * i) = 0 \<and> row_buffer ! (2 * i + 1) = 0 \<longrightarrow>
          (ch < 4 \<longrightarrow> pan_mix ch voice row_buffer ! (2 * i) = scaled (voice ! i)
                       \<and> pan_mix ch voice row_buffer ! (2 * i + 1) = 0)
          \<and> (\<not> ch < 4 \<longrightarrow> pan_mix ch voice row_buffer ! (2 * i) = 0
                       \<and> pan_mix ch voice row_buffer ! (2 * i + 1) = scaled (voice ! i)))"
proof -
  note nth = pan_mix_nth [OF assms(1,2), of _ ch]
  have l0: "2 * i < length row_buffer" and l1: "2 * i + 1 < length row_buffer"
    using assms by simp_all
  have d: "(2 * i) div 2 = i" "(2 * i + 1) div 2 = i" by simp_all
  have ev: "pan_side ch (2 * i) = (ch < 4)" "pan_side ch (2 * i + 1) = (\<not> ch < 4)"
    by (simp_all add: pan_side_def)
  have in_v: "2 * i < 2 * length voice" "2 * i + 1 < 2 * length voice"
    using assms(3) by simp_all
  have L: "pan_mix ch voice row_buffer ! (2 * i) =
             (if ch < 4
              then word_of_int (clamp16 (sint (row_buffer ! (2 * i)) + sint (scaled (voice ! i))))
              else row_buffer ! (2 * i))"
    using nth [OF l0] in_v by (simp only: d ev) simp
  have R: "pan_mix ch voice row_buffer ! (2 * i + 1) =
             (if \<not> ch < 4
              then word_of_int (clamp16 (sint (row_buffer ! (2 * i + 1)) + sint (scaled (voice ! i))))
              else row_buffer ! (2 * i + 1))"
    using nth [OF l1] in_v by (simp only: d ev) simp
  have rest: "\<forall>j. 2 * length voice \<le> j \<and> j < length row_buffer \<longrightarrow>
            pan_mix ch voice row_buffer ! j = row_buffer ! j"
    using nth by simp
  have z: "word_of_int (clamp16 (sint (0 :: Sint16) + sint (scaled (voice ! i)))) = scaled (voice ! i)"
    by simp
  show ?thesis
    using L R rest scaled_value [of "voice ! i"] z by (auto simp del: of_int_sint)
qed

theorem pan_mix_one_side_witness:
  "2 * length [1000 :: Sint16] \<le> length [0, 0 :: Sint16] \<and> length [0, 0 :: Sint16] \<le> 2 ^ 32
   \<and> (0 :: nat) < length [1000 :: Sint16]
   \<and> pan_mix 0 [1000] [0, 0] ! (2 * 0) = scaled ([1000] ! 0)
   \<and> pan_mix 0 [1000] [0, 0] ! (2 * 0 + 1) = 0
   \<and> pan_mix 4 [1000] [0, 0] ! (2 * 0) = 0
   \<and> pan_mix 4 [1000] [0, 0] ! (2 * 0 + 1) = scaled ([1000] ! 0)"
proof -
  have a: "2 * length [1000 :: Sint16] \<le> length [0, 0 :: Sint16]" by simp
  have b: "length [0, 0 :: Sint16] \<le> 2 ^ 32" by simp
  have c: "(0 :: nat) < length [1000 :: Sint16]" by simp
  have z: "[0, 0 :: Sint16] ! (2 * 0) = 0 \<and> [0, 0 :: Sint16] ! (2 * 0 + 1) = 0" by simp
  have l: "(0 :: nat) < 4" and h: "\<not> (4 :: nat) < 4" by simp_all
  from pan_mix_one_side [OF a b c, of 0] z l
  have A: "pan_mix 0 [1000] [0, 0] ! (2 * 0) = scaled ([1000] ! 0)
           \<and> pan_mix 0 [1000] [0, 0] ! (2 * 0 + 1) = 0"
    by blast
  from pan_mix_one_side [OF a b c, of 4] z h
  have B: "pan_mix 4 [1000] [0, 0] ! (2 * 0) = 0
           \<and> pan_mix 4 [1000] [0, 0] ! (2 * 0 + 1) = scaled ([1000] ! 0)"
    by blast
  show ?thesis using a b c A B by blast
qed

section \<open>WAV export\<close>

lemma length_mix_main_step [simp]:
  "length (mix_main_step start_sample row_buffer i audio_buffer) = length audio_buffer"
  by (simp add: mix_main_step_def Let_def)

lemma length_mix_main [simp]:
  "length (mix_main start_sample row_samples row_buffer audio_buffer) = length audio_buffer"
proof -
  have "length (fold (mix_main_step start_sample row_buffer) xs audio_buffer) = length audio_buffer"
    for xs by (induction xs arbitrary: audio_buffer) simp_all
  then show ?thesis by (simp add: mix_main_def)
qed

lemma length_render_channel [simp]:
  "length (render_channel env song actual_row start_sample row_samples ch audio_buffer)
     = length audio_buffer"
  by (simp add: render_channel_def Let_def)

lemma length_render_row [simp]:
  "length (render_row env song note_duration r audio_buffer) = length audio_buffer"
proof -
  have "length (fold (render_channel env song a s n) xs audio_buffer) = length audio_buffer"
    for xs a s n by (induction xs arbitrary: audio_buffer) simp_all
  then show ?thesis by (simp add: render_row_def Let_def)
qed

lemma length_render_song:
  "length (render_song env song) = u32n (total_samples_of song * 2)"
proof -
  have "length (fold (render_row env song d) rs buf) = length buf" for d rs buf
    by (induction rs arbitrary: buf) simp_all
  then show ?thesis by (simp add: render_song_def)
qed

lemma length_le16 [simp]: "length (le16 w) = 2"
  by (simp add: le16_def)

lemma length_pcm_bytes: "length (pcm_bytes buf) = 2 * length buf"
  by (induction buf) (simp_all add: pcm_bytes_def)

lemma pcm_bytes_nth:
  "j < length buf \<Longrightarrow>
     pcm_bytes buf ! (2 * j) = ucast (buf ! j) \<and>
     pcm_bytes buf ! (2 * j + 1) = ucast (drop_bit 8 (buf ! j))"
proof (induction buf arbitrary: j)
  case Nil
  then show ?case by simp
next
  case (Cons w ws)
  show ?case
  proof (cases j)
    case 0
    then show ?thesis by (simp add: pcm_bytes_def le16_def)
  next
    case (Suc k)
    then have "k < length ws" using Cons.prems by simp
    from Cons.IH [OF this] show ?thesis
      by (simp add: Suc pcm_bytes_def le16_def)
  qed
qed

lemma c_div_nonneg: "0 \<le> a \<Longrightarrow> 0 < b \<Longrightarrow> c_div a b = a div b"
  by (simp add: c_div_def)

lemma note_duration_range:
  assumes "bpm song = 0 \<or> (20 \<le> bpm song \<and> bpm song \<le> 300)"
  shows "0 \<le> get_note_duration_ms song \<and> get_note_duration_ms song \<le> 750"
proof (cases "bpm song = 0")
  case True
  then show ?thesis by (simp add: get_note_duration_ms_def)
next
  case False
  then have b: "20 \<le> bpm song" "bpm song \<le> 300" using assms by simp_all
  define q where "q = 60000 div bpm song"
  have q0: "0 \<le> q" using b by (simp add: q_def pos_imp_zdiv_nonneg_iff)
  have "60000 div bpm song \<le> 60000 div 20"
    using b by (intro zdiv_mono2) simp_all
  then have q1: "q \<le> 3000" by (simp add: q_def)
  have "get_note_duration_ms song = q div 4"
    using False b q0 by (simp add: get_note_duration_ms_def c_div_nonneg q_def)
  moreover have "0 \<le> q div 4 \<and> q div 4 \<le> 750" using q0 q1 by presburger
  ultimately show ?thesis by simp
qed

lemma total_rows_range:
  assumes "song_wf song" "loop_inv song"
  shows "0 \<le> total_rows_of song \<and> total_rows_of song \<le> 64"
  using assms
  by (auto simp: total_rows_of_def song_wf_def loop_inv_def MAX_ROWS_def)

lemma total_product_range:
  assumes "song_wf song" "loop_inv song" "bpm song = 0 \<or> (20 \<le> bpm song \<and> bpm song \<le> 300)"
  shows "0 \<le> total_rows_of song * get_note_duration_ms song * SAMPLE_RATE"
    and "total_rows_of song * get_note_duration_ms song * SAMPLE_RATE \<le> 2116800000"
proof -
  note r = total_rows_range [OF assms(1,2)] and d = note_duration_range [OF assms(3)]
  have p0: "0 \<le> total_rows_of song * get_note_duration_ms song" using r d by simp
  have "total_rows_of song * get_note_duration_ms song \<le> 64 * 750"
    using r d by (intro mult_mono) simp_all
  then have p1: "total_rows_of song * get_note_duration_ms song \<le> 48000" by simp
  show "0 \<le> total_rows_of song * get_note_duration_ms song * SAMPLE_RATE"
    using p0 by (simp add: SAMPLE_RATE_def)
  have "total_rows_of song * get_note_duration_ms song * 44100 \<le> 48000 * 44100"
    using p1 by (intro mult_right_mono) simp_all
  then show "total_rows_of song * get_note_duration_ms song * SAMPLE_RATE \<le> 2116800000"
    by (simp add: SAMPLE_RATE_def)
qed

lemma total_samples_value:
  assumes "song_wf song" "loop_inv song" "bpm song = 0 \<or> (20 \<le> bpm song \<and> bpm song \<le> 300)"
  shows "int (total_samples_of song)
           = total_rows_of song * get_note_duration_ms song * 44100 div 1000"
    and "total_samples_of song \<le> 2116800"
proof -
  define T where "T = total_rows_of song * get_note_duration_ms song * SAMPLE_RATE"
  have T: "0 \<le> T" "T \<le> 2116800000"
    unfolding T_def using assms by (rule total_product_range)+
  have q: "0 \<le> T div 1000" "T div 1000 \<le> 2116800"
    using T by (simp_all add: pos_imp_zdiv_nonneg_iff zdiv_mono1 [of T 2116800000 1000, simplified])
  have "c_div T 1000 = T div 1000" using T by (simp add: c_div_nonneg)
  moreover have "u32 (T div 1000) = T div 1000" using q by (simp add: u32_def)
  ultimately have ts: "total_samples_of song = nat (T div 1000)"
    by (simp add: total_samples_of_def T_def)
  show "int (total_samples_of song)
           = total_rows_of song * get_note_duration_ms song * 44100 div 1000"
    using q by (simp add: ts T_def SAMPLE_RATE_def)
  show "total_samples_of song \<le> 2116800" using q by (simp add: ts)
qed

lemma header_fields:
  "riff (make_header n) = ''RIFF''" "wave (make_header n) = ''WAVE''"
  "fmt (make_header n) = ''fmt ''" "data (make_header n) = ''data''"
  "fmt_size (make_header n) = 16" "audio_format (make_header n) = 1"
  "wav_num_channels (make_header n) = 2" "sample_rate (make_header n) = 44100"
  "bits_per_sample (make_header n) = 16" "block_align (make_header n) = 4"
  "byte_rate (make_header n) = 176400"
  "data_size (make_header n) = word_of_nat (n * 2 * 2)"
  "file_size (make_header n) = word_of_nat (n * 2 * 2) + 36"
  by (simp_all add: make_header_def Let_def SAMPLE_RATE_def)

lemma header_sizes:
  assumes "n \<le> 2116800"
  shows "unat (data_size (make_header n)) = n * 4"
    and "unat (file_size (make_header n)) = n * 4 + 36"
proof -
  have a: "n * 2 * 2 < 2 ^ 32" "n * 2 * 2 + 36 < 2 ^ 32" using assms by simp_all
  have "unat (word_of_nat (n * 2 * 2) :: 32 word) = n * 2 * 2"
    by (rule of_nat_inverse [OF refl]) (use a(1) in simp)
  then show "unat (data_size (make_header n)) = n * 4" by (simp add: header_fields)
  have "(word_of_nat (n * 2 * 2) + 36 :: 32 word) = word_of_nat (n * 2 * 2 + 36)" by simp
  moreover have "unat (word_of_nat (n * 2 * 2 + 36) :: 32 word) = n * 2 * 2 + 36"
    by (rule of_nat_inverse [OF refl]) (use a(2) in simp)
  ultimately show "unat (file_size (make_header n)) = n * 4 + 36"
    by (simp add: header_fields)
qed

lemma header_bytes:
  "wav_header_bytes (make_header n) =
     [0x52, 0x49, 0x46, 0x46] @ le32 (file_size (make_header n))
     @ [0x57, 0x41, 0x56, 0x45, 0x66, 0x6D, 0x74, 0x20,
        16, 0, 0, 0, 1, 0, 2, 0, 0x44, 0xAC, 0, 0, 0x10, 0xB1, 2, 0, 4, 0, 16, 0,
        0x64, 0x61, 0x74, 0x61]
     @ le32 (data_size (make_header n))"
  by (simp add: wav_header_bytes_def header_fields str_bytes_def le32_def le16_def)

lemma length_header_bytes: "length (wav_header_bytes (make_header n)) = 44"
  by (simp add: header_bytes le32_def)

lemma one_row_total:
  assumes "loop_inv song" "num_rows song = 1"
  shows "total_rows_of song = 1"
  using assms by (auto simp: total_rows_of_def loop_inv_def)

text \<open>
  Claim C7. Take a song inside the arrays of the editor, with a valid loop window and a
  tempo the editor accepts (0, or 20 to 300), so that no product of
  \<^verbatim>\<open>save_song_to_wav\<close> overflows; and let SDL, the mixer and \<^verbatim>\<open>fopen\<close> succeed. Then the
  file is a header of 44 bytes followed by the samples. The header reads \<^verbatim>\<open>RIFF\<close>, the
  chunk size, \<^verbatim>\<open>WAVE\<close>, \<^verbatim>\<open>fmt \<close>, 16, format 1, 2 channels, rate 44100, byte rate
  \<open>sample_rate * block_align\<close>, block align 4, 16 bits, \<^verbatim>\<open>data\<close>, the data size. The data
  size is the number of 16-bit samples (two per frame) times 2 bytes, which is the number
  of bytes that follow; the chunk size is the size of the file less 8. Sample \<open>j\<close> of the
  interleaved buffer is written low byte first. For a song of one row the data size is
  \<open>row_ms * 44100 / 1000 * 4\<close>, the division being the integer division of C: 22048 bytes
  at 120 BPM.
\<close>

theorem save_song_to_wav_format:
  assumes "SDL_Init_ok env" "Mix_OpenAudio_ok env" "fopen_ok env"
    and "song_wf song" "loop_inv song"
    and "bpm song = 0 \<or> (20 \<le> bpm song \<and> bpm song \<le> 300)"
  shows "let h = make_header (total_samples_of song); pcm = render_song env song in
     save_song_to_wav env song = Some (wav_header_bytes h @ pcm_bytes pcm)
     \<and> length (wav_header_bytes h) = 44
     \<and> wav_header_bytes h =
         [0x52, 0x49, 0x46, 0x46] @ le32 (file_size h)
         @ [0x57, 0x41, 0x56, 0x45, 0x66, 0x6D, 0x74, 0x20,
            16, 0, 0, 0, 1, 0, 2, 0, 0x44, 0xAC, 0, 0, 0x10, 0xB1, 2, 0, 4, 0, 16, 0,
            0x64, 0x61, 0x74, 0x61]
         @ le32 (data_size h)
     \<and> riff h = ''RIFF'' \<and> wave h = ''WAVE'' \<and> fmt h = ''fmt '' \<and> data h = ''data''
     \<and> fmt_size h = 16 \<and> audio_format h = 1 \<and> wav_num_channels h = 2
     \<and> sample_rate h = 44100 \<and> bits_per_sample h = 16 \<and> block_align h = 4
     \<and> byte_rate h = sample_rate h * ucast (block_align h)
     \<and> length pcm = 2 * total_samples_of song
     \<and> unat (data_size h) = length pcm * 2
     \<and> length (pcm_bytes pcm) = unat (data_size h)
     \<and> unat (file_size h) = length (wav_header_bytes h @ pcm_bytes pcm) - 8
     \<and> (\<forall>j < length pcm. pcm_bytes pcm ! (2 * j) = ucast (pcm ! j)
                        \<and> pcm_bytes pcm ! (2 * j + 1) = ucast (drop_bit 8 (pcm ! j)))
     \<and> int (total_samples_of song)
           = total_rows_of song * get_note_duration_ms song * 44100 div 1000
     \<and> (num_rows song = 1 \<longrightarrow>
           int (unat (data_size h)) = (get_note_duration_ms song * 44100 div 1000) * 4)"
proof -
  define n where "n = total_samples_of song"
  define h where "h = make_header n"
  define pcm where "pcm = render_song env song"
  note ts = total_samples_value [OF assms(4,5,6)]
  have n: "n \<le> 2116800" using ts(2) by (simp add: n_def)
  have lp: "length pcm = 2 * n"
    using n by (simp add: pcm_def length_render_song n_def [symmetric] u32n_def)
  have tk: "take (u32n (n * 2)) pcm = pcm"
    using n lp by (simp add: u32n_def)
  have s: "save_song_to_wav env song = Some (wav_header_bytes h @ pcm_bytes pcm)"
    using assms(1,2,3) tk by (simp add: save_song_to_wav_def h_def pcm_def n_def Let_def)
  note hs = header_sizes [OF n, folded h_def]
  note hf = header_fields [of n, folded h_def]
  have l44: "length (wav_header_bytes h) = 44" unfolding h_def by (rule length_header_bytes)
  have hb: "wav_header_bytes h =
         [0x52, 0x49, 0x46, 0x46] @ le32 (file_size h)
         @ [0x57, 0x41, 0x56, 0x45, 0x66, 0x6D, 0x74, 0x20,
            16, 0, 0, 0, 1, 0, 2, 0, 0x44, 0xAC, 0, 0, 0x10, 0xB1, 2, 0, 4, 0, 16, 0,
            0x64, 0x61, 0x74, 0x61]
         @ le32 (data_size h)"
    unfolding h_def by (rule header_bytes)
  have br: "byte_rate h = sample_rate h * ucast (block_align h)" by (simp add: hf)
  have ds: "unat (data_size h) = length pcm * 2" using hs(1) lp by simp
  have lb: "length (pcm_bytes pcm) = unat (data_size h)" using ds by (simp add: length_pcm_bytes)
  have fs: "unat (file_size h) = length (wav_header_bytes h @ pcm_bytes pcm) - 8"
    using hs(2) lp by (simp add: l44 length_pcm_bytes)
  have le: "\<forall>j < length pcm. pcm_bytes pcm ! (2 * j) = ucast (pcm ! j)
                        \<and> pcm_bytes pcm ! (2 * j + 1) = ucast (drop_bit 8 (pcm ! j))"
    using pcm_bytes_nth by blast
  have tv: "int n = total_rows_of song * get_note_duration_ms song * 44100 div 1000"
    using ts(1) by (simp add: n_def)
  have one: "num_rows song = 1 \<longrightarrow>
           int (unat (data_size h)) = (get_note_duration_ms song * 44100 div 1000) * 4"
  proof
    assume "num_rows song = 1"
    then have "total_rows_of song = 1" using assms(5) by (intro one_row_total)
    then have "int n = get_note_duration_ms song * 44100 div 1000" using tv by simp
    then show "int (unat (data_size h)) = (get_note_duration_ms song * 44100 div 1000) * 4"
      using hs(1) by simp
  qed
  have all: "save_song_to_wav env song = Some (wav_header_bytes h @ pcm_bytes pcm)
     \<and> length (wav_header_bytes h) = 44
     \<and> wav_header_bytes h =
         [0x52, 0x49, 0x46, 0x46] @ le32 (file_size h)
         @ [0x57, 0x41, 0x56, 0x45, 0x66, 0x6D, 0x74, 0x20,
            16, 0, 0, 0, 1, 0, 2, 0, 0x44, 0xAC, 0, 0, 0x10, 0xB1, 2, 0, 4, 0, 16, 0,
            0x64, 0x61, 0x74, 0x61]
         @ le32 (data_size h)
     \<and> riff h = ''RIFF'' \<and> wave h = ''WAVE'' \<and> fmt h = ''fmt '' \<and> data h = ''data''
     \<and> fmt_size h = 16 \<and> audio_format h = 1 \<and> wav_num_channels h = 2
     \<and> sample_rate h = 44100 \<and> bits_per_sample h = 16 \<and> block_align h = 4
     \<and> byte_rate h = sample_rate h * ucast (block_align h)
     \<and> length pcm = 2 * n
     \<and> unat (data_size h) = length pcm * 2
     \<and> length (pcm_bytes pcm) = unat (data_size h)
     \<and> unat (file_size h) = length (wav_header_bytes h @ pcm_bytes pcm) - 8
     \<and> (\<forall>j < length pcm. pcm_bytes pcm ! (2 * j) = ucast (pcm ! j)
                        \<and> pcm_bytes pcm ! (2 * j + 1) = ucast (drop_bit 8 (pcm ! j)))
     \<and> int n = total_rows_of song * get_note_duration_ms song * 44100 div 1000
     \<and> (num_rows song = 1 \<longrightarrow>
           int (unat (data_size h)) = (get_note_duration_ms song * 44100 div 1000) * 4)"
    using s l44 hb hf(1-10) br lp ds lb fs le tv one by blast
  show ?thesis
    apply (simp only: Let_def)
    apply (rule all [unfolded h_def pcm_def n_def])
    done
qed

theorem save_song_to_wav_format_witness:
  "SDL_Init_ok quiet_env \<and> Mix_OpenAudio_ok quiet_env \<and> fopen_ok quiet_env
   \<and> song_wf a4_song \<and> loop_inv a4_song \<and> bpm a4_song = 120 \<and> num_rows a4_song = 1
   \<and> get_note_duration_ms a4_song = 125
   \<and> unat (data_size (make_header (total_samples_of a4_song))) = 22048
   \<and> length (render_song quiet_env a4_song) = 11024
   \<and> unat (file_size (make_header (total_samples_of a4_song))) = 22084
   \<and> save_song_to_wav quiet_env a4_song
       = Some (wav_header_bytes (make_header (total_samples_of a4_song))
               @ pcm_bytes (render_song quiet_env a4_song))"
proof -
  have e: "SDL_Init_ok quiet_env" "Mix_OpenAudio_ok quiet_env" "fopen_ok quiet_env"
    by (simp_all add: quiet_env_def)
  have wf: "song_wf a4_song"
    by (simp add: song_wf_def a4_song_def MAX_CHANNELS_def MAX_ROWS_def list_all_length
        nth_list_update)
  have li: "loop_inv a4_song" by (simp add: loop_inv_def a4_song_def)
  have b: "bpm a4_song = 0 \<or> (20 \<le> bpm a4_song \<and> bpm a4_song \<le> 300)"
    by (simp add: a4_song_def)
  have r: "num_rows a4_song = 1" "bpm a4_song = 120" by (simp_all add: a4_song_def)
  have d: "get_note_duration_ms a4_song = 125"
    by (simp add: get_note_duration_ms_def a4_song_def c_div_def)
  note t = save_song_to_wav_format [OF e wf li b, unfolded Let_def]
  have "int (unat (data_size (make_header (total_samples_of a4_song))))
          = (get_note_duration_ms a4_song * 44100 div 1000) * 4"
    using t r(1) by blast
  also have "\<dots> = 22048" by (simp only: d) simp
  finally have ds: "int (unat (data_size (make_header (total_samples_of a4_song)))) = 22048" .
  have ln: "unat (data_size (make_header (total_samples_of a4_song)))
              = length (render_song quiet_env a4_song) * 2"
    using t by blast
  have fs: "unat (file_size (make_header (total_samples_of a4_song)))
              = length (wav_header_bytes (make_header (total_samples_of a4_song))
                        @ pcm_bytes (render_song quiet_env a4_song)) - 8"
    using t by blast
  have l44: "length (wav_header_bytes (make_header (total_samples_of a4_song))) = 44"
    using t by blast
  have lb: "length (pcm_bytes (render_song quiet_env a4_song))
              = unat (data_size (make_header (total_samples_of a4_song)))"
    using t by blast
  have sv: "save_song_to_wav quiet_env a4_song
       = Some (wav_header_bytes (make_header (total_samples_of a4_song))
               @ pcm_bytes (render_song quiet_env a4_song))"
    using t by blast
  have ds': "unat (data_size (make_header (total_samples_of a4_song))) = 22048"
    using ds by linarith
  have ln': "length (render_song quiet_env a4_song) = 11024" using ln ds' by linarith
  have fs': "unat (file_size (make_header (total_samples_of a4_song))) = 22084"
    using fs l44 lb ds' by simp
  show ?thesis
    using e wf li r d ds' ln' fs' sv by blast
qed

end
